theory Spec2Isabelle
  imports Complex_Main "HOL-Library.Signed_Division" "HOL-Library.Multiset"
begin

section \<open>Quote engine: \<open>buyQuote\<close>\<close>

text \<open>
  \<open>buyQuote(solLamportsBN, reserves)\<close> of humanbuy.js (and, word for word, of simpleBuy.js)
  works on bn.js big numbers, which are unbounded integers: they are modelled as \<open>int\<close>.
  \<open>reserves\<close> is the deserialised bonding curve or a falsy value (\<open>null\<close>/\<open>undefined\<close>),
  hence an option. bn.js \<open>div\<close> truncates towards zero and asserts that the divisor is not
  zero; the failed assertion is the only exception the function can raise on numbers.
\<close>

datatype error = AssertionFailed

record reserves =
  virtualTokenReserves :: int
  virtualSolReserves :: int
  realTokenReserves :: int

definition bn_div :: "int \<Rightarrow> int \<Rightarrow> error + int" where
  "bn_div a b = (if b = 0 then Inl AssertionFailed else Inr (a sdiv b))"

definition buyQuote :: "int \<Rightarrow> reserves option \<Rightarrow> error + int" where
  "buyQuote solLamportsBN reserves =
     (case reserves of
        None \<Rightarrow> Inr 0
      | Some r \<Rightarrow>
          if solLamportsBN = 0 then Inr 0
          else
            let product = virtualSolReserves r * virtualTokenReserves r;
                newSolReserves = virtualSolReserves r + solLamportsBN
            in (case bn_div product newSolReserves of
                  Inl e \<Rightarrow> Inl e
                | Inr q \<Rightarrow>
                    let newTokenAmount = q + 1;
                        tokensToReceive = virtualTokenReserves r - newTokenAmount
                    in Inr (min tokensToReceive (realTokenReserves r))))"

text \<open>
  The formula as the specification words it, for comparison with the code:
  \<open>out = virtualBase - ceil(virtualBase * virtualQuote / (virtualQuote + in))\<close>, clamped to
  not exceed \<open>realBase\<close>, and \<open>0\<close> for the degenerate inputs (\<open>in = 0\<close>, zero reserves).
\<close>

definition ceil_div :: "int \<Rightarrow> int \<Rightarrow> int" where
  "ceil_div a b = - ((- a) div b)"

definition quoteBuy_spec :: "reserves \<Rightarrow> int \<Rightarrow> int" where
  "quoteBuy_spec r inp =
     (if inp = 0 \<or> virtualTokenReserves r = 0 \<or> virtualSolReserves r = 0 then 0
      else min (virtualTokenReserves r
                  - ceil_div (virtualTokenReserves r * virtualSolReserves r) (virtualSolReserves r + inp))
               (realTokenReserves r))"


section \<open>Double arithmetic\<close>

text \<open>
  The sizing policy computes an amount of SOL on JavaScript numbers, which are IEEE 754
  doubles. A finite double is modelled by the real number it denotes, and an arithmetic
  operation of the code by the exact operation followed by \<open>fl\<close>, the rounding to the
  nearest double, ties to the even significand.

  \<open>rne\<close> rounds a real to the nearest integer, ties to the even one.
\<close>

definition rne :: "real \<Rightarrow> int" where
  "rne q = (let n = \<lfloor>q\<rfloor>; f = q - of_int n in
            if f < 1 / 2 then n else if 1 / 2 < f then n + 1
            else if even n then n else n + 1)"

text \<open>
  \<open>expo x\<close> is the exponent of \<open>x\<close>: the \<open>e\<close> with \<open>2 powi e \<le> \<bar>x\<bar> < 2 powi (e + 1)\<close>, and
  \<open>-1022\<close> for every smaller \<open>x\<close> (below \<open>2 powi (-1022)\<close> the doubles are equally spaced).
  \<open>expo_up\<close> halves a number from 1 on until it is below 2, \<open>expo_dn\<close> doubles a number
  below 1 until it reaches 1 or the exponent reaches \<open>-1022\<close>.
\<close>

function expo_up :: "int \<Rightarrow> real \<Rightarrow> int" where
  "expo_up e x = (if x < 2 then e else expo_up (e + 1) (x / 2))"
  by pat_completeness auto
termination
proof (relation "measure (\<lambda>(e, x). nat \<lfloor>x\<rfloor>)")
  show "wf (measure (\<lambda>(e, x). nat \<lfloor>x\<rfloor>))" by simp
next
  fix e :: int and x :: real
  assume a: "\<not> x < 2"
  have "\<lfloor>x / 2\<rfloor> < \<lfloor>x\<rfloor>"
  proof -
    have "x / 2 + 1 \<le> x" using a by simp
    then have "\<lfloor>x / 2 + 1\<rfloor> \<le> \<lfloor>x\<rfloor>" by (rule floor_mono)
    then show ?thesis by simp
  qed
  moreover have "0 < \<lfloor>x\<rfloor>" using a by simp
  ultimately show "((e + 1, x / 2), (e, x)) \<in> measure (\<lambda>(e, x). nat \<lfloor>x\<rfloor>)"
    by simp
qed

function expo_dn :: "int \<Rightarrow> real \<Rightarrow> int" where
  "expo_dn e x = (if 1 \<le> x \<or> e \<le> - 1022 then e else expo_dn (e - 1) (2 * x))"
  by pat_completeness auto
termination
  by (relation "measure (\<lambda>(e, x). nat (e + 1022))") simp_all

declare expo_up.simps [simp del] expo_dn.simps [simp del]

definition expo :: "real \<Rightarrow> int" where
  "expo x = (if 1 \<le> \<bar>x\<bar> then expo_up 0 \<bar>x\<bar> else expo_dn 0 \<bar>x\<bar>)"

text \<open>
  The doubles around \<open>x\<close> are the integer multiples of \<open>2 powi (expo x - 52)\<close>;
  \<open>scale k x\<close> is \<open>x * 2 powi k\<close>. The exponent has no upper limit here: in the functions
  below, on a balance that is a finite double and not negative, every sum, difference and
  product is at most the balance or at most 5000000, and the two quotients of
  \<open>calculateDynamicBuyAmount\<close> enter a \<open>Math.min\<close> or \<open>Math.max\<close> with a finite number,
  which gives the same result for a quotient beyond the largest double as for \<open>Infinity\<close>.
  A literal of the code such as \<open>0.4\<close> is the double \<open>fl (4 / 10)\<close>.
\<close>

definition scale :: "int \<Rightarrow> real \<Rightarrow> real" where
  "scale k x = (if 0 \<le> k then x * 2 ^ nat k else x / 2 ^ nat (- k))"

definition fl :: "real \<Rightarrow> real" where
  "fl x = (let k = expo x - 52 in scale k (of_int (rne (scale (- k) x))))"

definition fadd :: "real \<Rightarrow> real \<Rightarrow> real" where "fadd x y = fl (x + y)"
definition fsub :: "real \<Rightarrow> real \<Rightarrow> real" where "fsub x y = fl (x - y)"
definition fmul :: "real \<Rightarrow> real \<Rightarrow> real" where "fmul x y = fl (x * y)"
definition fdiv :: "real \<Rightarrow> real \<Rightarrow> real" where "fdiv x y = fl (x / y)"


section \<open>Sizing policy\<close>

text \<open>
  \<open>calculateDirectBuyAmount(effectiveBalance)\<close> draws once from \<open>Math.random()\<close>: the
  draw is the argument \<open>r\<close>, a number with \<open>0 \<le> r < 1\<close>. \<open>Math.min\<close>, \<open>Math.max\<close> and the
  comparisons are exact, \<open>Math.floor x\<close> is \<open>\<lfloor>x\<rfloor>\<close>, and every product, sum and quotient
  is rounded.
\<close>

definition calculateDirectBuyAmount :: "real \<Rightarrow> real \<Rightarrow> real" where
  "calculateDirectBuyAmount effectiveBalance r =
     (let buyPercentage =
            (if effectiveBalance > 5 then fadd (fl (4 / 10)) (fmul r (fl (2 / 10)))
             else if effectiveBalance > 1 then fadd (fl (5 / 10)) (fmul r (fl (2 / 10)))
             else fadd (fl (6 / 10)) (fmul r (fl (2 / 10))));
          buyAmount = fmul effectiveBalance buyPercentage;
          buyAmount = min buyAmount 5;
          buyAmount = max buyAmount (min (fl (1 / 10)) (fmul effectiveBalance (fl (9 / 10))))
      in fdiv (of_int \<lfloor>fmul buyAmount 1000000\<rfloor>) 1000000)"

text \<open>
  \<open>calculateDynamicBuyAmount\<close> awaits three external results, which are arguments here:
  the wallet balance in SOL (\<open>checkWalletBalance\<close>), the bonding curve account
  (\<open>FetchFailed\<close> when it cannot be fetched, \<open>DeserializeFailed\<close> when decoding or
  \<open>toNumber\<close> throws, otherwise its \<open>realTokenReserves\<close>), and the estimate of
  \<open>humanBuyAmount\<close> for the test amount, a finite number (\<open>None\<close> when the call or the
  \<open>toFixed\<close> on its result throws). A division by a zero ratio is \<open>Infinity\<close> in
  JavaScript, which \<open>Math.min\<close> then ignores.
\<close>

datatype curve_read = FetchFailed | DeserializeFailed | Reserves int

definition calculateDynamicBuyAmount :: "real \<Rightarrow> curve_read \<Rightarrow> real option \<Rightarrow> real \<Rightarrow> real" where
  "calculateDynamicBuyAmount walletBalance curve estimate r =
     (let effectiveBalance = max 0 (fsub walletBalance (fl (5 / 100))) in
      if effectiveBalance \<le> 0 then 0
      else case curve of
        FetchFailed \<Rightarrow> calculateDirectBuyAmount effectiveBalance r
      | DeserializeFailed \<Rightarrow> calculateDirectBuyAmount effectiveBalance r
      | Reserves rt \<Rightarrow>
          if fdiv (of_int rt) 1000000 < 1 then min (fl (2 / 10)) (fmul effectiveBalance (fl (5 / 10)))
          else (case estimate of
                  None \<Rightarrow> calculateDirectBuyAmount effectiveBalance r
                | Some estimatedTokens \<Rightarrow>
                    let testSolAmount = min 1 (fmul effectiveBalance (fl (5 / 10)));
                        ratio = fdiv estimatedTokens testSolAmount;
                        suggestedAmount =
                          (if ratio = 0 then min (fmul effectiveBalance (fl (7 / 10))) 5
                           else min (min (fmul effectiveBalance (fl (7 / 10))) (fdiv 29000000 ratio)) 5)
                    in max suggestedAmount (fl (1 / 10))))"

section \<open>Sell trigger policy\<close>

text \<open>
  The sell trigger policy returns integers that it clamps into a fixed range. Its numbers
  are modelled as real numbers without the rounding of the double format, a draw of
  \<open>Math.random()\<close> as a number \<open>r\<close> with \<open>0 \<le> r < 1\<close>, passed in by the caller of the model
  in the order in which the code draws. \<open>Math.round x\<close> is \<open>\<lfloor>x + 1/2\<rfloor>\<close>.
\<close>

definition js_round :: "real \<Rightarrow> int" where
  "js_round x = \<lfloor>x + 1 / 2\<rfloor>"

text \<open>
  The three arguments after the wallet count are the results of the successive calls of
  \<open>Math.random()\<close>: \<open>rand\<close> picks the branch of the mixture, \<open>u\<close> is the second draw and
  \<open>v\<close> the third (only the middle branch draws three times).
\<close>

definition determineNextSellPoint :: "real \<Rightarrow> real \<Rightarrow> real \<Rightarrow> int" where
  "determineNextSellPoint rand u v =
     (let buyCount =
            (if rand < 7 / 10 then js_round (737 / 100 - 2 + u * 4)
             else if rand < 9 / 10 then
               (if u < 5 / 10 then js_round (4 + v * (737 / 100 - 4 - 2))
                else js_round ((737 / 100 + 2) + v * (17 - 737 / 100 - 2)))
             else (if u < 5 / 10 then 4 else 17))
      in max 4 (min 17 buyCount))"

definition determineConsecutiveSells :: "int \<Rightarrow> real \<Rightarrow> real \<Rightarrow> real \<Rightarrow> int" where
  "determineConsecutiveSells availableWallets rand u v =
     (let maxPossible = min 7 availableWallets in
      if maxPossible \<le> 1 then 1
      else
        let sellCount =
              (if rand < 65 / 100 then js_round (295 / 100 - 1 + u * 2)
               else if rand < 9 / 10 then
                 (if u < 4 / 10 then js_round (1 + v * (295 / 100 - 1 - 1))
                  else js_round ((295 / 100 + 1) + v * (of_int maxPossible - 295 / 100 - 1)))
               else (if u < 3 / 10 then 1 else maxPossible))
        in max 1 (min maxPossible sellCount))"

section \<open>Wallet ledger and trade scheduler\<close>

text \<open>
  A wallet is identified by its public key, a string. \<open>successfulBuyWallets\<close> is a
  JavaScript \<open>Map\<close>: an association list in insertion order, where \<open>set\<close> replaces the
  value of a present key in place and appends an absent one. \<open>usedSellWallets\<close> is a
  \<open>Set\<close> iterated in insertion order: a list to which \<open>add\<close> appends absent elements.
\<close>

type_synonym pubkey = string

fun js_map_set :: "'k \<Rightarrow> 'v \<Rightarrow> ('k \<times> 'v) list \<Rightarrow> ('k \<times> 'v) list" where
  "js_map_set k v [] = [(k, v)]"
| "js_map_set k v (p # ps) = (if fst p = k then (k, v) # ps else p # js_map_set k v ps)"

definition js_map_delete :: "'k \<Rightarrow> ('k \<times> 'v) list \<Rightarrow> ('k \<times> 'v) list" where
  "js_map_delete k m = filter (\<lambda>p. fst p \<noteq> k) m"

definition js_set_add :: "'a \<Rightarrow> 'a list \<Rightarrow> 'a list" where
  "js_set_add x xs = (if x \<in> set xs then xs else xs @ [x])"

record wallet_info =
  wallet :: pubkey
  walletIndex :: nat
  tokenAccountPubKey :: "string option"
  balance :: "string option"

text \<open>
  An element of \<open>walletCycle\<close>. The fields \<open>isRebuy\<close> and \<open>rebuyCount\<close> are set together,
  and only on the entries built for a rebuy cycle: \<open>ce_rebuy = Some n\<close> stands for
  \<open>{isRebuy: true, rebuyCount: n}\<close> and \<open>None\<close> for an entry of the first cycle. The
  fields \<open>buyAmount\<close> and \<open>originalAmount\<close> are only printed and are left out.
\<close>

record cycle_entry =
  ce_wallet :: pubkey
  ce_index :: nat
  ce_rebuy :: "nat option"

record buy_result =
  br_success :: bool
  br_tokenAccountPubKey :: "string option"
  br_tokenBalance :: "string option"

datatype direction = Buy | Sell

text \<open>
  What the loop sends out: one entry for each call of \<open>executeBuy\<close> and of
  \<open>executeWalletSell\<close>, with the wallet and the value the pause flag has at that moment.
\<close>

record attempt =
  at_direction :: direction
  at_wallet :: pubkey
  at_paused :: bool

record session =
  isPaused :: bool
  buyCounter :: int
  skippedWallets :: nat
  successfulBuyWallets :: "(pubkey \<times> wallet_info) list"
  usedSellWallets :: "pubkey list"
  rebuyCountMap :: "pubkey \<rightharpoonup> nat"
  blacklistedWallets :: "pubkey set"
  buysUntilNextSell :: int
  walletCyclePosition :: nat
  walletCycle :: "cycle_entry list"
  selectedWallets :: "cycle_entry list"
  stopped :: bool
  attempts :: "attempt list"

definition MAX_REBUY_COUNT :: nat where
  "MAX_REBUY_COUNT = 10"

subsection \<open>The pause flag\<close>

text \<open>\<open>onKeyPress\<close> of hotkeySell.js toggles the global flag when the key is \<open>/\<close>.\<close>

definition onKeyPress :: "string \<Rightarrow> session \<Rightarrow> session" where
  "onKeyPress str s = (if str = ''/'' then s\<lparr>isPaused := \<not> isPaused s\<rparr> else s)"

definition keyPresses :: "string list \<Rightarrow> session \<Rightarrow> session" where
  "keyPresses ks s = fold onKeyPress ks s"

subsection \<open>Selling\<close>

text \<open>
  The environment of one pass of the loop of \<open>executeSessionSells\<close>: the keys pressed
  while the pass awaits (before its transaction is sent), the draw that picks the
  wallet, and whether \<open>executeWalletSell\<close> gets a signature for the transaction
  (\<open>se_sent\<close>) or ends in one of its failure branches.
\<close>

record sell_env =
  se_keys :: "string list"
  se_pick :: real
  se_sent :: bool

definition executeWalletSell :: "bool \<Rightarrow> wallet_info \<Rightarrow> session \<Rightarrow> session \<times> bool" where
  "executeWalletSell sent selectedWalletInfo s =
     (let s1 = s\<lparr>attempts := attempts s @
                 [\<lparr>at_direction = Sell, at_wallet = wallet selectedWalletInfo, at_paused = isPaused s\<rparr>]\<rparr>
      in if sent then
           (s1\<lparr>usedSellWallets := js_set_add (wallet selectedWalletInfo) (usedSellWallets s1),
               successfulBuyWallets := js_map_delete (wallet selectedWalletInfo) (successfulBuyWallets s1)\<rparr>,
            True)
         else
           (s1\<lparr>usedSellWallets := js_set_add (wallet selectedWalletInfo) (usedSellWallets s1)\<rparr>, False))"

text \<open>
  \<open>eligibleWallets\<close> is \<open>Array.from(successfulBuyWallets.entries()).filter(...).map(...)\<close>;
  \<open>eligibleEntries\<close> is the filtered array of entries before the \<open>map\<close> drops the keys.
\<close>

definition eligibleEntries ::
  "(pubkey \<times> wallet_info) list \<Rightarrow> pubkey list \<Rightarrow> pubkey option \<Rightarrow> (pubkey \<times> wallet_info) list" where
  "eligibleEntries buyWallets used lastUsedWalletPubKey =
     filter (\<lambda>(pubKey, _).
               if pubKey \<in> set used then False
               else if lastUsedWalletPubKey = Some pubKey \<and> length buyWallets > 1 then False
               else True) buyWallets"

definition eligibleWallets ::
  "(pubkey \<times> wallet_info) list \<Rightarrow> pubkey list \<Rightarrow> pubkey option \<Rightarrow> wallet_info list" where
  "eligibleWallets buyWallets used lastUsedWalletPubKey =
     map snd (eligibleEntries buyWallets used lastUsedWalletPubKey)"

text \<open>
  The value \<open>executeSessionSell\<close> returns is an object \<open>{success, wallet}\<close> on the
  ordinary paths and the bare boolean of \<open>executeWalletSell\<close> on the fallback path;
  reading \<open>.success\<close> of a boolean gives \<open>undefined\<close>, which is falsy.
  \<open>lastUsedWalletPubKey\<close> is a string or \<open>null\<close>; the test
  \<open>lastUsedWalletPubKey && ...\<close> of the fallback needs a string that is not empty.
  \<open>Math.floor(Math.random() * eligibleWallets.length)\<close> is an index of the array, since
  the draw \<open>se_pick\<close> lies in \<open>[0, 1)\<close>.
\<close>

datatype sell_result = Obj bool "pubkey option" | Bare bool

fun sr_success :: "sell_result \<Rightarrow> bool" where
  "sr_success (Obj b w) = b"
| "sr_success (Bare b) = False"

fun sr_wallet :: "sell_result \<Rightarrow> pubkey option" where
  "sr_wallet (Obj b w) = w"
| "sr_wallet (Bare b) = None"

definition executeSessionSell :: "sell_env \<Rightarrow> pubkey option \<Rightarrow> session \<Rightarrow> session \<times> sell_result" where
  "executeSessionSell e lastUsedWalletPubKey s =
     (let eligible = eligibleWallets (successfulBuyWallets s) (usedSellWallets s) lastUsedWalletPubKey in
      if length eligible = 0 then
        (case lastUsedWalletPubKey of
           None \<Rightarrow> (s, Obj False None)
         | Some l \<Rightarrow>
             (case (if l \<noteq> [] \<and> l \<notin> set (usedSellWallets s)
                    then map_of (successfulBuyWallets s) l else None) of
                None \<Rightarrow> (s, Obj False None)
              | Some lastWalletInfo \<Rightarrow>
                  (case executeWalletSell (se_sent e) lastWalletInfo s of
                     (s', b) \<Rightarrow> (s', Bare b))))
      else
        let randomIndex = nat \<lfloor>se_pick e * of_nat (length eligible)\<rfloor>;
            selectedWalletInfo = eligible ! randomIndex
        in (case executeWalletSell (se_sent e) selectedWalletInfo s of
              (s', result) \<Rightarrow>
                (s', Obj result (if result then Some (wallet selectedWalletInfo) else None))))"

text \<open>
  The loop \<open>for (i = 0; i < consecutiveSellCount; i++)\<close>: the first argument counts the
  passes that remain, \<open>i\<close> is the loop index; the loop state is the session, the number of
  successful sells and \<open>lastSellWallet\<close>. The keys pressed while pass \<open>i\<close> awaits reach
  \<open>onKeyPress\<close> before the sell of the pass is sent. A sell that fails ends the loop.
\<close>

fun sell_loop ::
  "(nat \<Rightarrow> sell_env) \<Rightarrow> nat \<Rightarrow> nat \<Rightarrow> session \<times> nat \<times> pubkey option \<Rightarrow> session \<times> nat \<times> pubkey option" where
  "sell_loop env 0 i st = st"
| "sell_loop env (Suc n) i (s, successfulSells, lastSellWallet) =
     (case executeSessionSell (env i) lastSellWallet (keyPresses (se_keys (env i)) s) of
        (s', sellResult) \<Rightarrow>
          if sr_success sellResult
          then sell_loop env n (Suc i) (s', Suc successfulSells, sr_wallet sellResult)
          else (s', successfulSells, lastSellWallet))"

record sells_result =
  sells_success :: bool
  sells_count :: nat

text \<open>
  The environment of one iteration of the main loop: the results of the calls it awaits
  and the draws of \<open>Math.random()\<close>.
  \<^item> \<open>env_refresh_amount\<close>: for each wallet, what \<open>calculateDynamicBuyAmount\<close> returns
    during the refresh of the cycle (\<open>None\<close> when the \<open>try\<close> block throws);
  \<^item> \<open>env_shuffle\<close>: the order that \<open>walletCycle.sort(() => Math.random() - 0.5)\<close> produces;
  \<^item> \<open>env_keys\<close>: the keys pressed during the delay and the calls before the buy;
  \<^item> \<open>env_balance\<close>: \<open>checkWalletBalance(...).balance\<close> (0 when the lookup fails);
  \<^item> \<open>env_calculated\<close>: the amount of \<open>calculateDynamicBuyAmount\<close> (\<open>None\<close> when it throws);
  \<^item> \<open>env_buyResult\<close>: what \<open>executeBuy\<close> returns (\<open>None\<close> when it throws);
  \<^item> \<open>env_consecutive\<close>, \<open>env_next\<close>: the draws of \<open>determineConsecutiveSells\<close> and of
    \<open>determineNextSellPoint\<close>; \<open>env_retry\<close>: the draw of the retry interval;
  \<^item> \<open>env_sell i\<close>: the environment of pass \<open>i\<close> of the sell sequence.
\<close>

record tick_env =
  env_refresh_amount :: "pubkey \<Rightarrow> real option"
  env_shuffle :: "cycle_entry list \<Rightarrow> cycle_entry list"
  env_keys :: "string list"
  env_balance :: real
  env_calculated :: "real option"
  env_buyResult :: "buy_result option"
  env_consecutive :: "real \<times> real \<times> real"
  env_sell :: "nat \<Rightarrow> sell_env"
  env_next :: "real \<times> real \<times> real"
  env_retry :: real

definition executeSessionSells :: "tick_env \<Rightarrow> pubkey option \<Rightarrow> session \<Rightarrow> session \<times> sells_result" where
  "executeSessionSells env lastUsedWalletPubKey s =
     (let availableWalletCount =
            length (filter (\<lambda>(pubKey, _). pubKey \<notin> set (usedSellWallets s)) (successfulBuyWallets s))
      in if availableWalletCount = 0 then (s, \<lparr>sells_success = False, sells_count = 0\<rparr>)
         else
           let consecutiveSellCount =
                 (case env_consecutive env of
                    (rand, u, v) \<Rightarrow> determineConsecutiveSells (int availableWalletCount) rand u v)
           in (case sell_loop (env_sell env) (nat consecutiveSellCount) 0 (s, 0, lastUsedWalletPubKey) of
                 (s', successfulSells, _) \<Rightarrow>
                   (s', \<lparr>sells_success = successfulSells > 0, sells_count = successfulSells\<rparr>)))"

subsection \<open>The main loop of \<open>humanbuy\<close>\<close>

text \<open>
  The refresh of the wallet cycle: the loop over \<open>usedSellWallets\<close>, whose state is the
  blacklist and the cycle being built. \<open>amount pubKey\<close> is the result of
  \<open>calculateDynamicBuyAmount\<close> for the wallet, \<open>None\<close> when the \<open>try\<close> block throws.
\<close>

fun refresh_loop ::
  "(pubkey \<Rightarrow> real option) \<Rightarrow> cycle_entry list \<Rightarrow> (pubkey \<rightharpoonup> nat) \<Rightarrow> pubkey list
     \<Rightarrow> pubkey set \<times> cycle_entry list \<Rightarrow> pubkey set \<times> cycle_entry list" where
  "refresh_loop amount selected counts [] st = st"
| "refresh_loop amount selected counts (pubKey # rest) (blacklisted, cycle) =
     (if pubKey \<in> blacklisted then refresh_loop amount selected counts rest (blacklisted, cycle)
      else case find (\<lambda>w. ce_wallet w = pubKey) selected of
        None \<Rightarrow> refresh_loop amount selected counts rest (blacklisted, cycle)
      | Some originalWalletInfo \<Rightarrow>
          let rebuyCount = (case counts pubKey of None \<Rightarrow> 0 | Some n \<Rightarrow> n) in
          if rebuyCount \<ge> MAX_REBUY_COUNT
          then refresh_loop amount selected counts rest (insert pubKey blacklisted, cycle)
          else (case amount pubKey of
                  None \<Rightarrow> refresh_loop amount selected counts rest (blacklisted, cycle)
                | Some newAmount \<Rightarrow>
                    if newAmount < 1 / 100
                    then refresh_loop amount selected counts rest (insert pubKey blacklisted, cycle)
                    else refresh_loop amount selected counts rest
                           (blacklisted, cycle @ [originalWalletInfo\<lparr>ce_rebuy := Some (rebuyCount + 1)\<rparr>])))"

definition refresh :: "tick_env \<Rightarrow> session \<Rightarrow> session" where
  "refresh env s =
     (case refresh_loop (env_refresh_amount env) (selectedWallets s) (rebuyCountMap s)
             (usedSellWallets s) (blacklistedWallets s, []) of
        (blacklisted, cycle) \<Rightarrow>
          if length cycle = 0
          then s\<lparr>blacklistedWallets := blacklisted, walletCycle := cycle, stopped := True\<rparr>
          else s\<lparr>blacklistedWallets := blacklisted, walletCycle := env_shuffle env cycle,
                 walletCyclePosition := 0\<rparr>)"

text \<open>
  The body of \<open>if (buyResult.success)\<close>, in two parts: \<open>buy_succeeded\<close> counts the buy,
  records a rebuy and puts the wallet into \<open>successfulBuyWallets\<close>; \<open>sell_trigger\<close> is
  the block \<open>if (buyCounter >= buysUntilNextSell)\<close> that runs the sell sequence and sets
  the next threshold. \<open>process_wallet\<close> is the \<open>try\<close> block of the pass: every
  exception and every failed buy counts the wallet as skipped.
\<close>

definition sell_trigger :: "tick_env \<Rightarrow> pubkey \<Rightarrow> session \<Rightarrow> session" where
  "sell_trigger env pubKey s =
     (if buyCounter s \<ge> buysUntilNextSell s then
        (case executeSessionSells env (Some pubKey) s of
           (s', sellResult) \<Rightarrow>
             if sells_success sellResult then
               let nextSellAfter = (case env_next env of (rand, u, v) \<Rightarrow> determineNextSellPoint rand u v)
               in s'\<lparr>buysUntilNextSell := buyCounter s' + nextSellAfter\<rparr>
             else
               let nextAttempt = 2 + \<lfloor>env_retry env * 3\<rfloor>
               in s'\<lparr>buysUntilNextSell := buyCounter s' + nextAttempt\<rparr>)
      else s)"

definition buy_succeeded :: "tick_env \<Rightarrow> cycle_entry \<Rightarrow> buy_result \<Rightarrow> session \<Rightarrow> session" where
  "buy_succeeded env walletInfo buyResult s =
     (let s1 = s\<lparr>buyCounter := buyCounter s + 1\<rparr>;
          s2 = (case ce_rebuy walletInfo of
                  Some rebuyCount \<Rightarrow> s1\<lparr>rebuyCountMap := (rebuyCountMap s1)(ce_wallet walletInfo \<mapsto> rebuyCount)\<rparr>
                | None \<Rightarrow> s1);
          s3 = s2\<lparr>successfulBuyWallets :=
                    js_map_set (ce_wallet walletInfo)
                      \<lparr>wallet = ce_wallet walletInfo, walletIndex = ce_index walletInfo,
                       tokenAccountPubKey = br_tokenAccountPubKey buyResult,
                       balance = br_tokenBalance buyResult\<rparr>
                      (successfulBuyWallets s2)\<rparr>
      in sell_trigger env (ce_wallet walletInfo) s3)"

definition process_wallet :: "tick_env \<Rightarrow> cycle_entry \<Rightarrow> session \<Rightarrow> session" where
  "process_wallet env walletInfo s =
     (if env_balance env \<le> 5 / 100 then s\<lparr>skippedWallets := skippedWallets s + 1\<rparr>
      else case env_calculated env of
        None \<Rightarrow> s\<lparr>skippedWallets := skippedWallets s + 1\<rparr>
      | Some calculatedBuyAmount \<Rightarrow>
          let s1 = s\<lparr>attempts := attempts s @
                      [\<lparr>at_direction = Buy, at_wallet = ce_wallet walletInfo, at_paused = isPaused s\<rparr>]\<rparr>
          in (case env_buyResult env of
                None \<Rightarrow> s1\<lparr>skippedWallets := skippedWallets s1 + 1\<rparr>
              | Some buyResult \<Rightarrow>
                  if br_success buyResult then buy_succeeded env walletInfo buyResult s1
                  else s1\<lparr>skippedWallets := skippedWallets s1 + 1\<rparr>))"

text \<open>
  One pass of \<open>while (true)\<close>, from the pause check on. A pass that finds the flag set
  sleeps and checks again: the session is unchanged. \<open>stopped\<close> is set by the \<open>break\<close>.
  \<open>walletCycle[walletCyclePosition++]\<close> is read in range: either the position was below
  the length, or the refresh has just built a cycle that is not empty and reset it to 0.
\<close>

definition iteration :: "tick_env \<Rightarrow> session \<Rightarrow> session" where
  "iteration env s =
     (if stopped s then s
      else if isPaused s then s
      else
        let s1 = (if walletCyclePosition s \<ge> length (walletCycle s) then refresh env s else s)
        in if stopped s1 then s1
           else
             let walletInfo = walletCycle s1 ! walletCyclePosition s1;
                 s2 = s1\<lparr>walletCyclePosition := walletCyclePosition s1 + 1\<rparr>;
                 s3 = keyPresses (env_keys env) s2
             in process_wallet env walletInfo s3)"

text \<open>
  The session when the loop starts: \<open>paused\<close> is the value the global flag has then,
  \<open>selected\<close> lists the wallets that \<open>selectWalletsForTrading\<close> returned, each with
  its index, and \<open>draws\<close> are the draws of the first \<open>determineNextSellPoint()\<close>.
\<close>

definition init :: "bool \<Rightarrow> (pubkey \<times> nat) list \<Rightarrow> real \<times> real \<times> real \<Rightarrow> session" where
  "init paused selected draws =
     (let entries = map (\<lambda>(w, i). \<lparr>ce_wallet = w, ce_index = i, ce_rebuy = None\<rparr>) selected
      in \<lparr>isPaused = paused, buyCounter = 0, skippedWallets = 0, successfulBuyWallets = [],
          usedSellWallets = [], rebuyCountMap = Map.empty, blacklistedWallets = {},
          buysUntilNextSell = 0 + (case draws of (rand, u, v) \<Rightarrow> determineNextSellPoint rand u v),
          walletCyclePosition = 0, walletCycle = entries, selectedWallets = entries,
          stopped = False, attempts = []\<rparr>)"

text \<open>
  A run interleaves the passes of the loop with the key presses that arrive between them
  (the keys that arrive while a pass awaits are part of its environment).
\<close>

datatype event = KeyPress string | Iteration tick_env

fun step :: "event \<Rightarrow> session \<Rightarrow> session" where
  "step (KeyPress str) s = onKeyPress str s"
| "step (Iteration env) s = iteration env s"

definition run :: "event list \<Rightarrow> session \<Rightarrow> session" where
  "run es s = fold step es s"

text \<open>\<open>rebuyCountMap.get(pubKey) || 0\<close>, the rebuy count of a wallet as the loop reads it.\<close>

definition rebuyCount_of :: "session \<Rightarrow> pubkey \<Rightarrow> nat" where
  "rebuyCount_of s pubKey = (case rebuyCountMap s pubKey of None \<Rightarrow> 0 | Some n \<Rightarrow> n)"


section \<open>Notions used in the statements\<close>

text \<open>The entries of the wallet cycle that the loop has not processed yet.\<close>

definition pending :: "session \<Rightarrow> cycle_entry list" where
  "pending s = drop (walletCyclePosition s) (walletCycle s)"

text \<open>
  Every value of \<open>successfulBuyWallets\<close> is stored under the public key of its own wallet
  (\<open>successfulBuyWallets.set(wallet.pubKey, {wallet, ...})\<close>).
\<close>

definition keys_match :: "(pubkey \<times> wallet_info) list \<Rightarrow> bool" where
  "keys_match m \<longleftrightarrow> (\<forall>p \<in> set m. wallet (snd p) = fst p)"

text \<open>
  What is assumed of the environment. \<open>walletCycle.sort(() => Math.random() - 0.5)\<close>
  reorders the array, so the shuffle that the environment supplies returns a permutation
  of its argument; and the draws of \<open>Math.random()\<close> that are used as an index or a
  count lie in \<open>[0, 1)\<close>.
\<close>

definition good_env :: "tick_env \<Rightarrow> bool" where
  "good_env env \<longleftrightarrow>
     (\<forall>xs. mset (env_shuffle env xs) = mset xs)
   \<and> (\<forall>i. 0 \<le> se_pick (env_sell env i) \<and> se_pick (env_sell env i) < 1)
   \<and> 0 \<le> env_retry env \<and> env_retry env < 1"

fun good_event :: "event \<Rightarrow> bool" where
  "good_event (KeyPress str) = True"
| "good_event (Iteration env) = good_env env"

text \<open>What a sell, or a sequence of sells, leaves unchanged or only extends.\<close>

definition sell_frame :: "session \<Rightarrow> session \<Rightarrow> bool" where
  "sell_frame s s' \<longleftrightarrow>
     buyCounter s' = buyCounter s \<and> skippedWallets s' = skippedWallets s
   \<and> rebuyCountMap s' = rebuyCountMap s \<and> blacklistedWallets s' = blacklistedWallets s
   \<and> buysUntilNextSell s' = buysUntilNextSell s
   \<and> walletCyclePosition s' = walletCyclePosition s \<and> walletCycle s' = walletCycle s
   \<and> selectedWallets s' = selectedWallets s \<and> stopped s' = stopped s
   \<and> set (usedSellWallets s) \<subseteq> set (usedSellWallets s')
   \<and> (distinct (usedSellWallets s) \<longrightarrow> distinct (usedSellWallets s'))
   \<and> (keys_match (successfulBuyWallets s) \<longrightarrow> keys_match (successfulBuyWallets s'))"

text \<open>
  The attempts added between two sessions are sells from wallets that were not in
  \<open>usedSellWallets\<close> at the start.
\<close>

definition sells_fresh :: "session \<Rightarrow> session \<Rightarrow> bool" where
  "sells_fresh s s' \<longleftrightarrow>
     (\<exists>new. attempts s' = attempts s @ new
        \<and> (\<forall>a \<in> set new. at_direction a = Sell \<and> at_wallet a \<notin> set (usedSellWallets s)))"

text \<open>What processing one entry of the wallet cycle changes.\<close>

definition buy_step :: "cycle_entry \<Rightarrow> session \<Rightarrow> session \<Rightarrow> bool" where
  "buy_step w s s' \<longleftrightarrow>
     walletCyclePosition s' = walletCyclePosition s \<and> walletCycle s' = walletCycle s
   \<and> selectedWallets s' = selectedWallets s \<and> stopped s' = stopped s
   \<and> blacklistedWallets s' = blacklistedWallets s
   \<and> set (usedSellWallets s) \<subseteq> set (usedSellWallets s')
   \<and> (distinct (usedSellWallets s) \<longrightarrow> distinct (usedSellWallets s'))
   \<and> keys_match (successfulBuyWallets s')
   \<and> (rebuyCountMap s' = rebuyCountMap s
        \<or> (\<exists>n. ce_rebuy w = Some n \<and> rebuyCountMap s' = (rebuyCountMap s)(ce_wallet w \<mapsto> n)))
   \<and> (\<exists>new. attempts s' = attempts s @ new
        \<and> (\<forall>a \<in> set new. if at_direction a = Buy then at_wallet a = ce_wallet w
                           else at_wallet a \<notin> set (usedSellWallets s)))"

text \<open>
  The invariant of the ledger. Either the loop is in its first cycle, where no entry is a
  rebuy and nothing has been counted or blacklisted yet; or it is in a rebuy cycle, whose
  wallets are distinct and whose pending entries carry the successor of the count recorded
  for their wallet, below the ceiling, for a wallet that has sold and is not blacklisted.
\<close>

definition ledger_inv :: "session \<Rightarrow> bool" where
  "ledger_inv s \<longleftrightarrow>
     keys_match (successfulBuyWallets s)
   \<and> distinct (usedSellWallets s)
   \<and> (\<forall>k \<in> dom (rebuyCountMap s).
         k \<in> set (usedSellWallets s) \<and> k \<in> ce_wallet ` set (selectedWallets s))
   \<and> (\<forall>k. rebuyCount_of s k \<le> MAX_REBUY_COUNT)
   \<and> ((\<forall>e \<in> set (walletCycle s). ce_rebuy e = None)
          \<and> rebuyCountMap s = Map.empty \<and> blacklistedWallets s = {}
       \<or> distinct (map ce_wallet (walletCycle s))
          \<and> (\<forall>e \<in> set (pending s).
                ce_rebuy e = Some (Suc (rebuyCount_of s (ce_wallet e)))
              \<and> rebuyCount_of s (ce_wallet e) < MAX_REBUY_COUNT
              \<and> ce_wallet e \<notin> blacklistedWallets s
              \<and> ce_wallet e \<in> set (usedSellWallets s)
              \<and> ce_wallet e \<in> ce_wallet ` set (selectedWallets s)))"

text \<open>Two sessions that differ at most in the pause flag and in the record of attempts.\<close>

definition same_ledger :: "session \<Rightarrow> session \<Rightarrow> bool" where
  "same_ledger s t \<longleftrightarrow> t = s\<lparr>isPaused := isPaused t, attempts := attempts t\<rparr>"

section \<open>A concrete session\<close>

text \<open>
  Four wallets and an environment in which every balance check, sizing and buy succeeds,
  every sell is sent, the shuffle leaves the cycle as it is, the first sell is due after
  4 buys, a sell sequence has one sell and the next sell is due 17 buys later.
  \<open>demo_run n\<close> is the session after \<open>n\<close> passes of the main loop.
\<close>

definition demo_buy :: buy_result where
  "demo_buy = \<lparr>br_success = True, br_tokenAccountPubKey = Some ''acct'', br_tokenBalance = Some ''1000''\<rparr>"

definition demo_sell :: sell_env where
  "demo_sell = \<lparr>se_keys = [], se_pick = 0, se_sent = True\<rparr>"

definition demo_env :: tick_env where
  "demo_env = \<lparr>env_refresh_amount = (\<lambda>k. Some (1 / 2)), env_shuffle = (\<lambda>xs. xs), env_keys = [],
     env_balance = 1, env_calculated = Some (1 / 2), env_buyResult = Some demo_buy,
     env_consecutive = (95 / 100, 1 / 10, 0),
     env_sell = (\<lambda>i. demo_sell),
     env_next = (95 / 100, 9 / 10, 0), env_retry = 0\<rparr>"

definition demo_init :: session where
  "demo_init = init False [(''A'', 1), (''B'', 2), (''C'', 3), (''D'', 4)] (95 / 100, 1 / 10, 0)"

definition demo_run :: "nat \<Rightarrow> session" where
  "demo_run n = run (replicate n (Iteration demo_env)) demo_init"

text \<open>
  The same environment with a sequence of two sells, where the key \<open>/\<close> is pressed while
  the first sell of the sequence is being prepared.
\<close>

definition demo_pause_env :: tick_env where
  "demo_pause_env = demo_env\<lparr>env_consecutive := (1 / 2, 0, 0),
     env_sell := (\<lambda>i. if i = 0 then demo_sell\<lparr>se_keys := [''/'']\<rparr> else demo_sell)\<rparr>"

text \<open>
  The same environment with a sequence of two sells, where the second sell picks the last
  of the eligible wallets.
\<close>

definition demo_two_env :: tick_env where
  "demo_two_env = demo_env\<lparr>env_consecutive := (1 / 2, 0, 0),
     env_sell := (\<lambda>i. if i = 0 then demo_sell else demo_sell\<lparr>se_pick := 9 / 10\<rparr>)\<rparr>"

text \<open>The same environment where no sell can be sent, with the draw \<open>r\<close> for the retry.\<close>

definition demo_fail_env :: "real \<Rightarrow> tick_env" where
  "demo_fail_env r = demo_env\<lparr>env_sell := (\<lambda>i. demo_sell\<lparr>se_sent := False\<rparr>), env_retry := r\<rparr>"

definition demo_info :: "pubkey \<Rightarrow> nat \<Rightarrow> wallet_info" where
  "demo_info k i = \<lparr>wallet = k, walletIndex = i, tokenAccountPubKey = Some ''acct'', balance = Some ''1000''\<rparr>"

section \<open>Properties of the quote engine\<close>

lemma buyQuote_pos:
  assumes "0 < inp" "0 \<le> virtualSolReserves r" "0 \<le> virtualTokenReserves r"
  shows "buyQuote inp (Some r) =
           Inr (min (virtualTokenReserves r
                       - (virtualSolReserves r * virtualTokenReserves r div (virtualSolReserves r + inp) + 1))
                    (realTokenReserves r))"
proof -
  have n: "0 < virtualSolReserves r + inp" using assms by arith
  have p: "0 \<le> virtualSolReserves r * virtualTokenReserves r" using assms by simp
  have "virtualSolReserves r * virtualTokenReserves r sdiv (virtualSolReserves r + inp)
          = virtualSolReserves r * virtualTokenReserves r div (virtualSolReserves r + inp)"
    using n p by (simp add: signed_divide_int_def sgn_if abs_if)
  then show ?thesis
    using n assms(1) by (simp add: buyQuote_def bn_div_def Let_def)
qed

lemma ceil_div_floor:
  assumes "0 < b"
  shows "ceil_div a b = a div b + (if b dvd a then 0 else 1)"
proof (cases "b dvd a")
  case True
  then obtain k where k: "a = b * k" by (auto simp: dvd_def)
  have "- a = b * (- k)" using k by simp
  then have "(- a) div b = - k" using assms by (simp del: mult_minus_right)
  moreover have "a div b = k" using k assms by simp
  ultimately show ?thesis using True by (simp add: ceil_div_def)
next
  case False
  then have "(- a) div b = - (a div b) - 1"
    using assms by (simp add: zdiv_zminus1_eq_if mod_eq_0_iff_dvd)
  with False show ?thesis by (simp add: ceil_div_def)
qed

lemma int_div_less_bound:
  assumes "p < t * n" "0 < (n::int)"
  shows "p div n < t"
proof (rule ccontr)
  assume "\<not> p div n < t"
  then have "t \<le> p div n" by simp
  then have "n * t \<le> n * (p div n)" using assms(2) by (simp add: mult_left_mono)
  moreover have "p = n * (p div n) + p mod n" by simp
  moreover have "0 \<le> p mod n" using assms(2) by simp
  ultimately have "n * t \<le> p" by arith
  with assms(1) show False by (simp add: mult.commute)
qed

lemma quote_raw_nonneg:
  assumes "0 < inp" "0 \<le> s" "1 \<le> (t::int)"
  shows "s * t div (s + inp) + 1 \<le> t"
proof -
  have "t * inp > 0" using assms by simp
  then have "s * t < t * (s + inp)"
    by (simp add: algebra_simps)
  moreover have "0 < s + inp" using assms by arith
  ultimately have "s * t div (s + inp) < t"
    by (rule int_div_less_bound)
  then show ?thesis by arith
qed

text \<open>
  Claim C1, as the code has it. For a liquidity state with non-negative virtual reserves and
  an input \<open>in \<ge> 0\<close>, \<open>buyQuote\<close> never raises. It returns 0 when the reserves are
  missing or \<open>in = 0\<close>. For \<open>in > 0\<close> it returns
  \<open>virtualBase - (floor(virtualBase * virtualQuote / (virtualQuote + in)) + 1)\<close> clamped to
  not exceed \<open>realBase\<close>: that is the formula with \<open>ceil\<close>, less one whenever
  \<open>virtualQuote + in\<close> divides the product exactly. Zero reserves are not a special case
  of the code: the same formula applies to them.
\<close>
theorem buyQuote_formula:
  assumes "0 \<le> inp" "0 \<le> virtualSolReserves r" "0 \<le> virtualTokenReserves r"
  shows "buyQuote inp None = Inr 0
       \<and> buyQuote 0 (Some r) = Inr 0
       \<and> (0 < inp \<longrightarrow>
            buyQuote inp (Some r) =
              Inr (min (virtualTokenReserves r
                          - (virtualSolReserves r * virtualTokenReserves r div (virtualSolReserves r + inp) + 1))
                       (realTokenReserves r))
          \<and> buyQuote inp (Some r) =
              Inr (min (virtualTokenReserves r
                          - ceil_div (virtualTokenReserves r * virtualSolReserves r) (virtualSolReserves r + inp)
                          - (if (virtualSolReserves r + inp) dvd (virtualTokenReserves r * virtualSolReserves r)
                             then 1 else 0))
                       (realTokenReserves r)))"
proof -
  have a: "buyQuote inp None = Inr 0" by (simp add: buyQuote_def)
  have b: "buyQuote 0 (Some r) = Inr 0" by (simp add: buyQuote_def)
  have c: "buyQuote inp (Some r) =
              Inr (min (virtualTokenReserves r
                          - (virtualSolReserves r * virtualTokenReserves r div (virtualSolReserves r + inp) + 1))
                       (realTokenReserves r))" if "0 < inp"
    using that assms(2,3) by (rule buyQuote_pos)
  have d: "virtualTokenReserves r
             - (virtualSolReserves r * virtualTokenReserves r div (virtualSolReserves r + inp) + 1)
         = virtualTokenReserves r
             - ceil_div (virtualTokenReserves r * virtualSolReserves r) (virtualSolReserves r + inp)
             - (if (virtualSolReserves r + inp) dvd (virtualTokenReserves r * virtualSolReserves r)
                then 1 else 0)" if "0 < inp"
  proof -
    have "0 < virtualSolReserves r + inp" using that assms by arith
    from ceil_div_floor [OF this, of "virtualTokenReserves r * virtualSolReserves r"]
    show ?thesis by (simp add: mult.commute)
  qed
  have e: "buyQuote inp (Some r) =
              Inr (min (virtualTokenReserves r
                          - ceil_div (virtualTokenReserves r * virtualSolReserves r) (virtualSolReserves r + inp)
                          - (if (virtualSolReserves r + inp) dvd (virtualTokenReserves r * virtualSolReserves r)
                             then 1 else 0))
                       (realTokenReserves r))" if "0 < inp"
    using c [OF that] by (simp only: d [OF that])
  from a b c e show ?thesis by blast
qed

text \<open>The theorem at concrete inputs, among them the scenario of the specification.\<close>

theorem buyQuote_formula_witness:
  "buyQuote 7 None = Inr 0
   \<and> buyQuote 0 (Some \<lparr>virtualTokenReserves = 1000000, virtualSolReserves = 1000000000, realTokenReserves = 900000\<rparr>) = Inr 0
   \<and> buyQuote 10000000 (Some \<lparr>virtualTokenReserves = 1000000, virtualSolReserves = 1000000000, realTokenReserves = 900000\<rparr>) = Inr 9900
   \<and> buyQuote 7 (Some \<lparr>virtualTokenReserves = 0, virtualSolReserves = 0, realTokenReserves = 0\<rparr>) = Inr (- 1)"
  using buyQuote_formula [of 7 "\<lparr>virtualTokenReserves = 1000000, virtualSolReserves = 1000000000, realTokenReserves = 900000\<rparr>"]
        buyQuote_formula [of 10000000 "\<lparr>virtualTokenReserves = 1000000, virtualSolReserves = 1000000000, realTokenReserves = 900000\<rparr>"]
        buyQuote_formula [of 7 "\<lparr>virtualTokenReserves = 0, virtualSolReserves = 0, realTokenReserves = 0\<rparr>"]
  by simp

text \<open>
  Where the wording of C1 fails: with \<open>virtualBase = virtualQuote = in = 10\<close> the division is
  exact, \<open>ceil\<close> gives 5 and the code 4; with all reserves zero and \<open>in = 5\<close> the code
  returns \<open>-1\<close>, not 0.
\<close>

theorem buyQuote_ceil_counterexample:
  "buyQuote 10 (Some \<lparr>virtualTokenReserves = 10, virtualSolReserves = 10, realTokenReserves = 100\<rparr>) = Inr 4
   \<and> quoteBuy_spec \<lparr>virtualTokenReserves = 10, virtualSolReserves = 10, realTokenReserves = 100\<rparr> 10 = 5
   \<and> buyQuote 5 (Some \<lparr>virtualTokenReserves = 0, virtualSolReserves = 0, realTokenReserves = 0\<rparr>) = Inr (- 1)
   \<and> quoteBuy_spec \<lparr>virtualTokenReserves = 0, virtualSolReserves = 0, realTokenReserves = 0\<rparr> 5 = 0"
  by (simp add: buyQuote_def bn_div_def quoteBuy_spec_def ceil_div_def signed_divide_int_def)

text \<open>
  Claim C3, as the code has it. For a liquidity state with \<open>virtualBase \<ge> 1\<close>,
  \<open>virtualQuote \<ge> 0\<close> and \<open>realBase \<ge> 0\<close>, and inputs \<open>0 \<le> a \<le> b\<close>, \<open>buyQuote\<close>
  returns a value for both, the output for \<open>a\<close> is at most the output for \<open>b\<close>, and both
  are at most \<open>realBase\<close>.
\<close>
theorem buyQuote_monotone:
  assumes "1 \<le> virtualTokenReserves r" "0 \<le> virtualSolReserves r" "0 \<le> realTokenReserves r"
      and "0 \<le> a" "a \<le> b"
  shows "\<exists>x y. buyQuote a (Some r) = Inr x \<and> buyQuote b (Some r) = Inr y
               \<and> x \<le> y \<and> x \<le> realTokenReserves r \<and> y \<le> realTokenReserves r"
proof -
  let ?t = "virtualTokenReserves r" and ?s = "virtualSolReserves r" and ?R = "realTokenReserves r"
  let ?raw = "\<lambda>i. ?t - (?s * ?t div (?s + i) + 1)"
  have t0: "0 \<le> ?t" using assms(1) by arith
  have pos: "buyQuote i (Some r) = Inr (min (?raw i) ?R)" if "0 < i" for i
    using that assms(2) t0 by (rule buyQuote_pos)
  have nonneg: "0 \<le> min (?raw i) ?R" if "0 < i" for i
    using quote_raw_nonneg [OF that assms(2) assms(1)] assms(3) by simp
  show ?thesis
  proof (cases "a = 0")
    case True
    note a0 = this
    show ?thesis
    proof (cases "b = 0")
      case True
      with a0 assms(3) show ?thesis by (simp add: buyQuote_def)
    next
      case False
      then have "0 < b" using assms a0 by arith
      with a0 pos [of b] nonneg [of b] assms(3) show ?thesis
        by (simp add: buyQuote_def)
    qed
  next
    case False
    then have a: "0 < a" and b: "0 < b" using assms by arith+
    have "0 \<le> ?s * ?t" using assms(2) t0 by simp
    moreover have "0 < ?s + a" "?s + a \<le> ?s + b" using a assms by arith+
    ultimately have "?s * ?t div (?s + b) \<le> ?s * ?t div (?s + a)"
      by (rule zdiv_mono2)
    then have "?raw a \<le> ?raw b" by arith
    then have "min (?raw a) ?R \<le> min (?raw b) ?R" by simp
    with pos [OF a] pos [OF b] show ?thesis by simp
  qed
qed

text \<open>The theorem on the scenario of the specification, for the inputs 10000000 and 20000000.\<close>

theorem buyQuote_monotone_witness:
  "\<exists>x y. buyQuote 10000000 (Some \<lparr>virtualTokenReserves = 1000000, virtualSolReserves = 1000000000, realTokenReserves = 900000\<rparr>) = Inr x
       \<and> buyQuote 20000000 (Some \<lparr>virtualTokenReserves = 1000000, virtualSolReserves = 1000000000, realTokenReserves = 900000\<rparr>) = Inr y
       \<and> x \<le> y \<and> x \<le> 900000 \<and> y \<le> 900000"
  using buyQuote_monotone [of "\<lparr>virtualTokenReserves = 1000000, virtualSolReserves = 1000000000, realTokenReserves = 900000\<rparr>" 10000000 20000000]
  by simp

text \<open>
  Where the wording of C3 fails: with \<open>virtualBase = 0\<close> the output drops from 0 at
  \<open>in = 0\<close> to \<open>-1\<close> at \<open>in = 1\<close>.
\<close>

theorem buyQuote_monotone_counterexample:
  "buyQuote 0 (Some \<lparr>virtualTokenReserves = 0, virtualSolReserves = 5, realTokenReserves = 0\<rparr>) = Inr 0
   \<and> buyQuote 1 (Some \<lparr>virtualTokenReserves = 0, virtualSolReserves = 5, realTokenReserves = 0\<rparr>) = Inr (- 1)"
  by (simp add: buyQuote_def bn_div_def)

section \<open>Properties of the rounding\<close>

text \<open>
  The exponent brackets its argument, so the rounding moves a number by at most half a
  unit in the last place, \<open>2 powi (expo x - 53)\<close>, and it is monotone on the numbers from 0
  on. These are the facts about doubles that the sizing policy needs; a value at a
  concrete argument is computed with \<open>dbl_simps\<close>.
\<close>

lemma scale_powi: "scale k x = x * 2 powi k"
proof (cases "0 \<le> k")
  case True
  then have "(2::real) powi k = 2 ^ nat k" by (simp only: power_int_def if_True)
  moreover have "scale k x = x * 2 ^ nat k" using True by (simp only: scale_def if_True)
  ultimately show ?thesis by (simp only:)
next
  case False
  then have "(2::real) powi k = inverse 2 ^ nat (- k)" by (simp only: power_int_def if_False)
  moreover have "scale k x = x / 2 ^ nat (- k)" using False by (simp only: scale_def if_False)
  moreover have "x / 2 ^ nat (- k) = x * inverse 2 ^ nat (- k)"
    by (simp only: power_inverse divide_inverse)
  ultimately show ?thesis by (simp only:)
qed

lemma powi_Suc: "(2::real) powi (k + 1) = 2 * 2 powi k"
  by (simp add: power_int_add)

lemma powi_mono: "a \<le> b \<Longrightarrow> (2::real) powi a \<le> 2 powi b"
  by (rule power_int_increasing) simp_all

lemma expo_up_bounds:
  "1 \<le> x \<Longrightarrow> e \<le> expo_up e x \<and> 2 powi (expo_up e x - e) \<le> x
     \<and> x < 2 powi (expo_up e x - e + 1)"
proof (induction e x rule: expo_up.induct)
  case (1 e x)
  show ?case
  proof (cases "x < 2")
    case True
    then have "expo_up e x = e" by (subst expo_up.simps) simp
    then show ?thesis using True 1(2) by simp
  next
    case False
    then have eq: "expo_up e x = expo_up (e + 1) (x / 2)" by (subst expo_up.simps) simp
    define d where "d = expo_up (e + 1) (x / 2) - (e + 1)"
    have "1 \<le> x / 2" using False by simp
    from 1(1) [OF False this]
    have ih: "0 \<le> d" "2 powi d \<le> x / 2" "x / 2 < 2 powi (d + 1)"
      by (simp_all add: d_def)
    have e1: "expo_up e x - e = d + 1" by (simp add: eq d_def)
    have "2 powi (d + 1) \<le> x" using ih(2) by (simp add: powi_Suc)
    moreover have "x < 2 powi (d + 1 + 1)" using ih(3) powi_Suc [of "d + 1"] by linarith
    moreover have "e \<le> expo_up e x" using ih(1) e1 by simp
    ultimately show ?thesis unfolding e1 by simp
  qed
qed

lemma expo_dn_bounds:
  "x < 2 \<Longrightarrow> - 1022 \<le> e \<Longrightarrow>
     - 1022 \<le> expo_dn e x \<and> expo_dn e x \<le> e
     \<and> x * 2 powi e < 2 powi (expo_dn e x + 1)
     \<and> (2 powi (expo_dn e x) \<le> x * 2 powi e \<or> expo_dn e x = - 1022)"
proof (induction e x rule: expo_dn.induct)
  case (1 e x)
  show ?case
  proof (cases "1 \<le> x \<or> e \<le> - 1022")
    case True
    then have eq: "expo_dn e x = e" by (subst expo_dn.simps) simp
    have p: "(0::real) < 2 powi e" by simp
    have "x * 2 powi e < 2 * 2 powi e" using 1(2) p by simp
    then have a: "x * 2 powi e < 2 powi (e + 1)" by (simp add: powi_Suc)
    have b: "2 powi e \<le> x * 2 powi e \<or> e = - 1022"
    proof (cases "1 \<le> x")
      case True
      then have "1 * 2 powi e \<le> x * 2 powi e" using p by (intro mult_right_mono) simp_all
      then show ?thesis by simp
    next
      case False
      with True 1(3) show ?thesis by simp
    qed
    show ?thesis unfolding eq using a b 1(3) by simp
  next
    case False
    then have eq: "expo_dn e x = expo_dn (e - 1) (2 * x)" by (subst expo_dn.simps) simp
    have "2 * x < 2" "- 1022 \<le> e - 1" using False by simp_all
    from 1(1) [OF False this]
    have ih: "- 1022 \<le> expo_dn e x" "expo_dn e x \<le> e - 1"
      "2 * x * 2 powi (e - 1) < 2 powi (expo_dn e x + 1)"
      "2 powi (expo_dn e x) \<le> 2 * x * 2 powi (e - 1) \<or> expo_dn e x = - 1022"
      unfolding eq [symmetric] by simp_all
    have "(2::real) powi e = 2 * 2 powi (e - 1)" using powi_Suc [of "e - 1"] by simp
    then have "2 * x * 2 powi (e - 1) = x * 2 powi e" by simp
    with ih show ?thesis by simp
  qed
qed

lemma expo_bounds:
  "- 1022 \<le> expo x \<and> \<bar>x\<bar> < 2 powi (expo x + 1) \<and> (2 powi (expo x) \<le> \<bar>x\<bar> \<or> expo x = - 1022)"
proof (cases "1 \<le> \<bar>x\<bar>")
  case True
  then have eq: "expo x = expo_up 0 \<bar>x\<bar>" by (simp add: expo_def)
  from expo_up_bounds [OF True, of 0] show ?thesis unfolding eq by simp
next
  case False
  then have eq: "expo x = expo_dn 0 \<bar>x\<bar>" by (simp add: expo_def)
  have "\<bar>x\<bar> < 2" using False by simp
  from expo_dn_bounds [OF this, of 0] show ?thesis unfolding eq by simp
qed

lemma expo_le:
  assumes "\<bar>x\<bar> < 2 powi (k + 1)" "- 1022 \<le> k"
  shows "expo x \<le> k"
proof (rule ccontr)
  assume "\<not> expo x \<le> k"
  then have gt: "k + 1 \<le> expo x" by simp
  then have "expo x \<noteq> - 1022" using assms(2) by simp
  then have "2 powi (expo x) \<le> \<bar>x\<bar>" using expo_bounds [of x] by blast
  moreover have "(2::real) powi (k + 1) \<le> 2 powi (expo x)" using gt by (rule powi_mono)
  ultimately show False using assms(1) by linarith
qed

lemma rne_cases: "rne q = \<lfloor>q\<rfloor> \<or> rne q = \<lfloor>q\<rfloor> + 1"
  by (simp add: rne_def Let_def)

lemma rne_err: "\<bar>of_int (rne q) - q\<bar> \<le> 1 / 2"
proof -
  define n where "n = \<lfloor>q\<rfloor>"
  define f where "f = q - of_int n"
  have f: "0 \<le> f" "f < 1" unfolding f_def n_def by linarith+
  have q: "q = of_int n + f" by (simp add: f_def)
  have r: "rne q = (if f < 1 / 2 then n else if 1 / 2 < f then n + 1
                    else if even n then n else n + 1)"
    by (simp only: rne_def Let_def f_def n_def)
  consider (a) "f < 1 / 2" | (b) "1 / 2 < f" | (c) "f = 1 / 2" by linarith
  then show ?thesis
  proof cases
    case a
    then have "rne q = n" by (simp only: r if_True)
    then show ?thesis using a f q by simp
  next
    case b
    then have "rne q = n + 1" unfolding r by simp
    then show ?thesis using b f q by simp
  next
    case c
    then have d: "rne q = n \<or> rne q = n + 1" unfolding r by simp
    have e: "\<bar>of_int n - q\<bar> \<le> 1 / 2" "\<bar>of_int (n + 1) - q\<bar> \<le> 1 / 2"
      using c q by simp_all
    from d show ?thesis
    proof
      assume "rne q = n"
      then show ?thesis using e(1) by (simp only:)
    next
      assume "rne q = n + 1"
      then show ?thesis using e(2) by (simp only:)
    qed
  qed
qed

lemma rne_of_int: "rne (of_int n) = n"
  by (simp add: rne_def Let_def)

lemma rne_mono:
  assumes "q \<le> q'"
  shows "rne q \<le> rne q'"
proof (cases "\<lfloor>q\<rfloor> < \<lfloor>q'\<rfloor>")
  case True
  then show ?thesis using rne_cases [of q] rne_cases [of q'] by linarith
next
  case False
  have "\<lfloor>q\<rfloor> \<le> \<lfloor>q'\<rfloor>" using assms by (rule floor_mono)
  with False have eq: "\<lfloor>q'\<rfloor> = \<lfloor>q\<rfloor>" by simp
  define n where "n = \<lfloor>q\<rfloor>"
  have le: "q - of_int n \<le> q' - of_int n" using assms by simp
  show ?thesis
    unfolding rne_def Let_def eq n_def [symmetric] using le by auto
qed

lemma fl_powi: "fl x = of_int (rne (x * 2 powi (52 - expo x))) * 2 powi (expo x - 52)"
proof -
  have "- (expo x - 52) = 52 - expo x" by simp
  then show ?thesis by (simp only: fl_def Let_def scale_powi)
qed

lemma powi_cancel: "(2::real) powi (52 - e) * 2 powi (e - 52) = 1"
proof -
  have "(2::real) powi (52 - e) * 2 powi (e - 52) = 2 powi ((52 - e) + (e - 52))"
    by (rule power_int_add [symmetric]) simp
  then show ?thesis by simp
qed

lemma fl_err: "\<bar>fl x - x\<bar> \<le> 2 powi (expo x - 53)"
proof -
  define e where "e = expo x"
  define q where "q = x * 2 powi (52 - e)"
  define p :: real where "p = 2 powi (e - 52)"
  have p: "0 < p" by (simp add: p_def)
  have x: "x = q * p"
    using powi_cancel [of e] by (simp add: q_def p_def mult.assoc)
  have f: "fl x = of_int (rne q) * p"
    by (simp only: fl_powi e_def q_def p_def)
  have "fl x - x = of_int (rne q) * p - q * p" using f x by linarith
  also have "\<dots> = (of_int (rne q) - q) * p" by (simp add: algebra_simps)
  finally have "fl x - x = (of_int (rne q) - q) * p" .
  then have "\<bar>fl x - x\<bar> = \<bar>of_int (rne q) - q\<bar> * p"
    using p by (simp add: abs_mult)
  also have "\<dots> \<le> 1 / 2 * p"
    using rne_err [of q] p by (intro mult_right_mono) simp_all
  also have "1 / 2 * p = 2 powi (e - 53)"
  proof -
    have "(2::real) powi (e - 53 + 1) = 2 * 2 powi (e - 53)" by (rule powi_Suc)
    moreover have "e - 53 + 1 = e - 52" by simp
    ultimately show ?thesis by (simp add: p_def)
  qed
  finally show ?thesis by (simp only: e_def)
qed

lemma fl_err_le:
  assumes "\<bar>x\<bar> < 2 powi (k + 1)" "- 1022 \<le> k"
  shows "\<bar>fl x - x\<bar> \<le> 2 powi (k - 53)"
proof -
  have "expo x \<le> k" using assms by (rule expo_le)
  then have "(2::real) powi (expo x - 53) \<le> 2 powi (k - 53)" by (intro powi_mono) simp
  with fl_err [of x] show ?thesis by linarith
qed

lemma expo_mono:
  assumes "0 \<le> x" "x \<le> y"
  shows "expo x \<le> expo y"
proof (rule expo_le)
  show "\<bar>x\<bar> < 2 powi (expo y + 1)" using expo_bounds [of y] assms by simp
  show "- 1022 \<le> expo y" using expo_bounds [of y] by simp
qed

lemma fl_mono:
  assumes "0 \<le> x" "x \<le> y"
  shows "fl x \<le> fl y"
proof (cases "expo x = expo y")
  case True
  define e where "e = expo y"
  have "x * 2 powi (52 - e) \<le> y * 2 powi (52 - e)"
    using assms(2) by (intro mult_right_mono) simp_all
  then have "rne (x * 2 powi (52 - e)) \<le> rne (y * 2 powi (52 - e))" by (rule rne_mono)
  then have "real_of_int (rne (x * 2 powi (52 - e))) * 2 powi (e - 52)
      \<le> real_of_int (rne (y * 2 powi (52 - e))) * 2 powi (e - 52)"
    by (intro mult_right_mono) simp_all
  then show ?thesis unfolding fl_powi True e_def .
next
  case False
  define ex where "ex = expo x"
  define ey where "ey = expo y"
  have lt: "ex < ey" using False expo_mono [OF assms] by (simp add: ex_def ey_def)
  have bx: "\<bar>x\<bar> < 2 powi (ex + 1)" "- 1022 \<le> ex"
    using expo_bounds [of x] by (simp_all add: ex_def)
  have "ey \<noteq> - 1022" using lt bx(2) by simp
  then have byl: "2 powi ey \<le> \<bar>y\<bar>" using expo_bounds [of y] by (simp add: ey_def)
  have y0: "0 \<le> y" using assms by simp
  have px: "(0::real) < 2 powi (52 - ex)" and py: "(0::real) < 2 powi (52 - ey)" by simp_all
  have "x * 2 powi (52 - ex) \<le> 2 powi (ex + 1) * 2 powi (52 - ex)"
    using bx(1) assms(1) by (intro mult_right_mono) simp_all
  also have "(2::real) powi (ex + 1) * 2 powi (52 - ex) = 2 powi ((ex + 1) + (52 - ex))"
    by (rule power_int_add [symmetric]) simp
  also have "(ex + 1) + (52 - ex) = 53" by simp
  finally have "x * 2 powi (52 - ex) \<le> of_int (2 ^ 53)" by simp
  then have "rne (x * 2 powi (52 - ex)) \<le> rne (of_int (2 ^ 53))" by (rule rne_mono)
  then have rx: "rne (x * 2 powi (52 - ex)) \<le> 2 ^ 53" by (simp only: rne_of_int)
  have "fl x = of_int (rne (x * 2 powi (52 - ex))) * 2 powi (ex - 52)"
    by (simp only: fl_powi ex_def)
  also have "\<dots> \<le> of_int (2 ^ 53) * 2 powi (ex - 52)"
    using rx by (intro mult_right_mono) simp_all
  also have "real_of_int (2 ^ 53) * 2 powi (ex - 52) = 2 powi 53 * 2 powi (ex - 52)" by simp
  also have "\<dots> = 2 powi (53 + (ex - 52))"
    by (rule power_int_add [symmetric]) simp
  also have "53 + (ex - 52) = ex + 1" by simp
  finally have ux: "fl x \<le> 2 powi (ex + 1)" .
  have "2 powi ey * 2 powi (52 - ey) \<le> y * 2 powi (52 - ey)"
    using byl y0 by (intro mult_right_mono) simp_all
  moreover have "(2::real) powi ey * 2 powi (52 - ey) = 2 powi (ey + (52 - ey))"
    by (rule power_int_add [symmetric]) simp
  moreover have "ey + (52 - ey) = 52" by simp
  ultimately have "of_int (2 ^ 52) \<le> y * 2 powi (52 - ey)" by simp
  then have "rne (of_int (2 ^ 52)) \<le> rne (y * 2 powi (52 - ey))" by (rule rne_mono)
  then have ry: "2 ^ 52 \<le> rne (y * 2 powi (52 - ey))" by (simp only: rne_of_int)
  have "(2::real) powi ey = 2 powi (52 + (ey - 52))" by simp
  also have "\<dots> = 2 powi 52 * 2 powi (ey - 52)"
    by (rule power_int_add) simp
  also have "\<dots> = of_int (2 ^ 52) * 2 powi (ey - 52)" by simp
  also have "\<dots> \<le> of_int (rne (y * 2 powi (52 - ey))) * 2 powi (ey - 52)"
    using ry by (intro mult_right_mono) simp_all
  also have "\<dots> = fl y" by (simp only: fl_powi ey_def)
  finally have ly: "2 powi ey \<le> fl y" .
  have "(2::real) powi (ex + 1) \<le> 2 powi ey" using lt by (intro powi_mono) simp
  with ux ly show ?thesis by linarith
qed

lemma fl_zero: "fl 0 = 0"
  by (simp add: fl_powi rne_def)

lemma fl_nonneg: "0 \<le> x \<Longrightarrow> 0 \<le> fl x"
  using fl_mono [of 0 x] by (simp add: fl_zero)

lemmas dbl_simps = fl_def expo_def rne_def scale_def fadd_def fsub_def fmul_def fdiv_def
  expo_up.simps expo_dn.simps

section \<open>Properties of the sizing policy\<close>

text \<open>
  The doubles of the literals of \<open>calculateDirectBuyAmount\<close>, by evaluation.
\<close>

lemma fl_consts:
  "fl (fl (4 / 10)) = fl (4 / 10)" "fl (fl (5 / 10)) = fl (5 / 10)" "fl (fl (6 / 10)) = fl (6 / 10)"
  "fl (fl (2 / 10)) = fl (2 / 10)" "fl (fl (1 / 10)) = fl (1 / 10)" "fl 5 = 5" "fl 1 = 1"
  by (simp_all add: dbl_simps)

lemma fl_lo_consts:
  "4 / 10 \<le> fl (4 / 10)" "5 / 10 \<le> fl (5 / 10)" "6 / 10 - 3 / 100000000000000000 \<le> fl (6 / 10)"
  "fl (4 / 10) \<le> 1" "fl (5 / 10) \<le> 1" "fl (6 / 10) \<le> 1"
  by (simp_all add: dbl_simps)

lemma fl_hi_consts:
  "fl (fl (4 / 10) + fl (2 / 10)) \<le> 6 / 10 + 1 / 10000000000000000"
  "fl (fl (5 / 10) + fl (2 / 10)) \<le> 7 / 10 + 1 / 10000000000000000"
  "fl (fl (6 / 10) + fl (2 / 10)) \<le> 8 / 10 + 1 / 10000000000000000"
  by (simp_all add: dbl_simps)

lemma fl_floor_consts:
  "1 / 10 \<le> fl (1 / 10)" "fl (1 / 10) \<le> 1 / 10 + 1 / 100000000000000000" "9 / 10 \<le> fl (9 / 10)"
  "fl (9 / 10) \<le> 1" "0 \<le> fl (2 / 10)"
  by (simp_all add: dbl_simps)

lemma final_consts:
  "fl (of_int \<lfloor>fl (5 * 1000000)\<rfloor> / 1000000) = 5"
  "fl (of_int \<lfloor>fl (fl (1 / 10) * 1000000)\<rfloor> / 1000000) = fl (1 / 10)"
  "fl (999999 / 1000000) < 1"
  by (simp_all add: dbl_simps)


lemma pct_bounds:
  assumes "0 \<le> r" "r \<le> 1" "0 \<le> a" "fl a = a"
  shows "a \<le> fadd a (fmul r (fl (2 / 10)))
       \<and> fadd a (fmul r (fl (2 / 10))) \<le> fl (a + fl (2 / 10))"
proof -
  define c where "c = fl (2 / 10)"
  define t where "t = fl (r * c)"
  have c0: "0 \<le> c" using fl_floor_consts(5) by (simp only: c_def)
  have rc0: "0 \<le> r * c" using assms(1) c0 by simp
  have rc1: "r * c \<le> c" using mult_right_mono [OF assms(2) c0] by simp
  have t0: "0 \<le> t" unfolding t_def using rc0 by (rule fl_nonneg)
  have "fl (r * c) \<le> fl c" using rc0 rc1 by (rule fl_mono)
  then have t1: "t \<le> c" by (simp only: t_def c_def fl_consts)
  have "fl a \<le> fl (a + t)" using assms(3) t0 by (intro fl_mono) simp_all
  then have lo: "a \<le> fl (a + t)" by (simp only: assms(4))
  have hi: "fl (a + t) \<le> fl (a + c)" using assms(3) t0 t1 by (intro fl_mono) simp_all
  show ?thesis using lo hi by (simp only: fadd_def fmul_def t_def c_def) 
qed

lemma final_mono:
  assumes "0 \<le> b" "b \<le> b'"
  shows "fl (of_int \<lfloor>fl (b * 1000000)\<rfloor> / 1000000) \<le> fl (of_int \<lfloor>fl (b' * 1000000)\<rfloor> / 1000000)"
proof -
  have a: "0 \<le> b * 1000000" "b * 1000000 \<le> b' * 1000000" using assms by simp_all
  have y0: "0 \<le> fl (b * 1000000)" using a(1) by (rule fl_nonneg)
  have y: "fl (b * 1000000) \<le> fl (b' * 1000000)" using a by (rule fl_mono)
  then have n: "\<lfloor>fl (b * 1000000)\<rfloor> \<le> \<lfloor>fl (b' * 1000000)\<rfloor>" by (rule floor_mono)
  have n0: "0 \<le> \<lfloor>fl (b * 1000000)\<rfloor>" using y0 by simp
  have "(0::real) \<le> of_int \<lfloor>fl (b * 1000000)\<rfloor> / 1000000" using n0 by simp
  moreover have "(of_int \<lfloor>fl (b * 1000000)\<rfloor> :: real) / 1000000 \<le> of_int \<lfloor>fl (b' * 1000000)\<rfloor> / 1000000"
    using n by (simp add: divide_right_mono)
  ultimately show ?thesis by (rule fl_mono)
qed

lemma final_err:
  assumes "0 \<le> b" "b \<le> 5"
  shows "b - 1 / 1000000 - 1 / 1000000000000000 < fl (of_int \<lfloor>fl (b * 1000000)\<rfloor> / 1000000)
       \<and> fl (of_int \<lfloor>fl (b * 1000000)\<rfloor> / 1000000) < b + 1 / 1000000000000000"
proof -
  define y where "y = fl (b * 1000000)"
  define n where "n = \<lfloor>y\<rfloor>"
  define z :: real where "z = of_int n / 1000000"
  have "\<bar>b * 1000000\<bar> < 2 powi (22 + 1)" using assms by simp
  then have "\<bar>fl (b * 1000000) - b * 1000000\<bar> \<le> 2 powi (22 - 53)" by (rule fl_err_le) simp
  then have "\<bar>y - b * 1000000\<bar> \<le> 1 / 2147483648" by (simp add: y_def power_int_minus_divide)
  then have ey: "y \<le> b * 1000000 + 1 / 2147483648" "b * 1000000 - 1 / 2147483648 \<le> y"
    by linarith+
  have y0: "0 \<le> y" unfolding y_def using assms(1) by (intro fl_nonneg) simp
  have n0: "0 \<le> n" using y0 by (simp add: n_def)
  have n1: "of_int n \<le> y" "y < of_int n + 1" unfolding n_def by linarith+
  have zn: "of_int n = 1000000 * z" by (simp add: z_def)
  have z0: "0 \<le> z" using n0 by (simp add: z_def)
  have z8: "z < 8" using zn n1(1) ey assms(2) by linarith
  have "\<bar>z\<bar> < 2 powi (2 + 1)" using z0 z8 by simp
  then have "\<bar>fl z - z\<bar> \<le> 2 powi (2 - 53)" by (rule fl_err_le) simp
  then have "\<bar>fl z - z\<bar> \<le> 1 / 2251799813685248" by (simp add: power_int_minus_divide)
  then have ez: "fl z \<le> z + 1 / 2251799813685248" "z - 1 / 2251799813685248 \<le> fl z"
    by linarith+
  have "b - 1 / 1000000 - 1 / 1000000000000000 < fl z"
    using zn n1(2) ey ez by simp
  moreover have "fl z < b + 1 / 1000000000000000"
    using zn n1(1) ey ez by simp
  ultimately show ?thesis by (simp only: z_def n_def y_def)
qed

lemma floor_amount_bounds:
  assumes "0 < eff"
  shows "0 \<le> min (fl (1 / 10)) (fmul eff (fl (9 / 10)))
       \<and> min (fl (1 / 10)) (fmul eff (fl (9 / 10))) \<le> fl (1 / 10)
       \<and> min (1 / 10) (9 / 10 * eff) - 1 / 100000000000000000 \<le> min (fl (1 / 10)) (fmul eff (fl (9 / 10)))"
proof -
  define c where "c = fl (9 / 10)"
  define m where "m = fl (eff * c)"
  define d where "d = fl (1 / 10)"
  have c: "9 / 10 \<le> c" "c \<le> 1" using fl_floor_consts by (simp_all only: c_def)
  have d: "1 / 10 \<le> d" "d \<le> 1 / 10 + 1 / 100000000000000000" using fl_floor_consts by (simp_all only: d_def)
  have p0: "0 \<le> eff * c" using assms c by simp
  have p1: "9 / 10 * eff \<le> eff * c" using mult_left_mono [OF c(1), of eff] assms by simp
  have m0: "0 \<le> m" unfolding m_def using p0 by (rule fl_nonneg)
  have lo: "min (1 / 10) (9 / 10 * eff) - 1 / 100000000000000000 \<le> min d m"
  proof (cases "d \<le> eff * c")
    case True
    have "fl d \<le> fl (eff * c)" using True d(1) by (intro fl_mono) simp_all
    then have "d \<le> m" by (simp only: d_def m_def fl_consts)
    then show ?thesis using d(1) by simp
  next
    case False
    then have "\<bar>eff * c\<bar> < 1 / 8" using p0 d(2) by simp
    then have "\<bar>eff * c\<bar> < 2 powi (- 4 + 1)" by (simp add: power_int_minus_divide)
    then have "\<bar>fl (eff * c) - eff * c\<bar> \<le> 2 powi (- 4 - 53)" by (rule fl_err_le) simp
    then have "\<bar>m - eff * c\<bar> \<le> 1 / 144115188075855872" by (simp add: m_def power_int_minus_divide)
    then have "eff * c - 1 / 144115188075855872 \<le> m" by linarith
    then have "9 / 10 * eff - 1 / 100000000000000000 \<le> m" using p1 by simp
    then show ?thesis using d(1) by (simp add: min_def)
  qed
  have "0 \<le> min d m" using m0 d(1) by simp
  moreover have "min d m \<le> d" by simp
  ultimately show ?thesis using lo by (simp only: d_def m_def c_def fmul_def)
qed

lemma direct_unfold:
  "calculateDirectBuyAmount eff r =
     fl (of_int \<lfloor>fl (max (min (fl (eff *
        (if eff > 5 then fadd (fl (4 / 10)) (fmul r (fl (2 / 10)))
         else if eff > 1 then fadd (fl (5 / 10)) (fmul r (fl (2 / 10)))
         else fadd (fl (6 / 10)) (fmul r (fl (2 / 10)))))) 5)
        (min (fl (1 / 10)) (fmul eff (fl (9 / 10)))) * 1000000)\<rfloor> / 1000000)"
  by (simp only: calculateDirectBuyAmount_def Let_def fmul_def fdiv_def)

lemma direct_general:
  assumes "0 < eff" "0 \<le> pct"
  shows "fl (of_int \<lfloor>fl (max (min (fl (eff * pct)) 5)
            (min (fl (1 / 10)) (fmul eff (fl (9 / 10)))) * 1000000)\<rfloor> / 1000000) \<le> 5
       \<and> min (1 / 10) (9 / 10 * eff) - 1 / 1000000 - 1 / 100000000000000
           < fl (of_int \<lfloor>fl (max (min (fl (eff * pct)) 5)
            (min (fl (1 / 10)) (fmul eff (fl (9 / 10)))) * 1000000)\<rfloor> / 1000000)"
proof -
  define M where "M = min (fl (1 / 10)) (fmul eff (fl (9 / 10)))"
  define b where "b = max (min (fl (eff * pct)) 5) M"
  have M: "0 \<le> M" "M \<le> fl (1 / 10)" "min (1 / 10) (9 / 10 * eff) - 1 / 100000000000000000 \<le> M"
    using floor_amount_bounds [OF assms(1)] by (simp_all only: M_def)
  have M5: "M \<le> 5" using M(2) fl_floor_consts(2) by simp
  have b0: "0 \<le> b" using M(1) by (simp add: b_def)
  have b5: "b \<le> 5" using M5 by (simp add: b_def)
  have bM: "M \<le> b" by (simp add: b_def)
  have "fl (of_int \<lfloor>fl (b * 1000000)\<rfloor> / 1000000) \<le> fl (of_int \<lfloor>fl (5 * 1000000)\<rfloor> / 1000000)"
    using b0 b5 by (rule final_mono)
  then have cap: "fl (of_int \<lfloor>fl (b * 1000000)\<rfloor> / 1000000) \<le> 5"
    by (simp only: final_consts)
  have "b - 1 / 1000000 - 1 / 1000000000000000 < fl (of_int \<lfloor>fl (b * 1000000)\<rfloor> / 1000000)"
    using final_err [OF b0 b5] by blast
  then have low: "min (1 / 10) (9 / 10 * eff) - 1 / 1000000 - 1 / 100000000000000
      < fl (of_int \<lfloor>fl (b * 1000000)\<rfloor> / 1000000)"
    using bM M(3) by simp
  show ?thesis using cap low by (simp only: b_def M_def)
qed

lemma direct_band:
  assumes "0 < eff" "eff \<le> 25 / 2" "c - 3 / 100000000000000000 \<le> pct" "pct \<le> h + 1 / 10000000000000000"
    and "0 \<le> pct" "h \<le> 8 / 10" "c * eff \<le> 5" "1 / 10 \<le> h * eff"
  shows "c * eff - 1 / 1000000 - 1 / 100000000000000
           < fl (of_int \<lfloor>fl (max (min (fl (eff * pct)) 5)
            (min (fl (1 / 10)) (fmul eff (fl (9 / 10)))) * 1000000)\<rfloor> / 1000000)
       \<and> fl (of_int \<lfloor>fl (max (min (fl (eff * pct)) 5)
            (min (fl (1 / 10)) (fmul eff (fl (9 / 10)))) * 1000000)\<rfloor> / 1000000)
           < h * eff + 1 / 100000000000000"
proof -
  define M where "M = min (fl (1 / 10)) (fmul eff (fl (9 / 10)))"
  define b1 where "b1 = fl (eff * pct)"
  define b where "b = max (min b1 5) M"
  define ce where "ce = c * eff"
  define he where "he = h * eff"
  define p where "p = eff * pct"
  have M: "0 \<le> M" "M \<le> fl (1 / 10)"
    using floor_amount_bounds [OF assms(1)] by (simp_all only: M_def)
  have M1: "M \<le> 1 / 10 + 1 / 100000000000000000" using M(2) fl_floor_consts(2) by simp
  have "eff * (c - 3 / 100000000000000000) \<le> eff * pct"
    using assms(1,3) by (intro mult_left_mono) simp_all
  then have "ce - 3 / 100000000000000000 * eff \<le> p" by (simp add: ce_def p_def algebra_simps)
  then have plo: "ce - 4 / 10000000000000000 \<le> p" using assms(2) by simp
  have "eff * pct \<le> eff * (h + 1 / 10000000000000000)"
    using assms(1,4) by (intro mult_left_mono) simp_all
  then have "p \<le> he + 1 / 10000000000000000 * eff" by (simp add: he_def p_def algebra_simps)
  then have phi: "p \<le> he + 13 / 10000000000000000" using assms(2) by simp
  have "h * eff \<le> 8 / 10 * eff"
    using assms(1,6) by (intro mult_right_mono) simp_all
  then have he10: "he \<le> 10" using assms(2) by (simp add: he_def)
  have p0: "0 \<le> p" using assms(1,5) by (simp add: p_def)
  have "\<bar>p\<bar> < 2 powi (3 + 1)" using p0 phi he10 by simp
  then have "\<bar>fl p - p\<bar> \<le> 2 powi (3 - 53)" by (rule fl_err_le) simp
  then have "\<bar>b1 - p\<bar> \<le> 1 / 1125899906842624"
    by (simp add: b1_def p_def power_int_minus_divide)
  then have e1: "b1 \<le> p + 1 / 1125899906842624" "p - 1 / 1125899906842624 \<le> b1"
    by linarith+
  have ce5: "ce \<le> 5" using assms(7) by (simp only: ce_def)
  have he1: "1 / 10 \<le> he" using assms(8) by (simp only: he_def)
  have b0: "0 \<le> b" using M(1) by (simp add: b_def)
  have b5: "b \<le> 5" using M1 by (simp add: b_def)
  have blo: "ce - 2 / 1000000000000000 \<le> b"
  proof -
    show ?thesis unfolding b_def using plo e1(2) ce5 by linarith
  qed
  have bhi: "b \<le> he + 3 / 1000000000000000"
  proof -
    show ?thesis unfolding b_def using phi e1(1) M1 he1 by linarith
  qed
  have f: "b - 1 / 1000000 - 1 / 1000000000000000 < fl (of_int \<lfloor>fl (b * 1000000)\<rfloor> / 1000000)"
    "fl (of_int \<lfloor>fl (b * 1000000)\<rfloor> / 1000000) < b + 1 / 1000000000000000"
    using final_err [OF b0 b5] by blast+
  have "ce - 1 / 1000000 - 1 / 100000000000000 < fl (of_int \<lfloor>fl (b * 1000000)\<rfloor> / 1000000)"
    using f(1) blo by simp
  moreover have "fl (of_int \<lfloor>fl (b * 1000000)\<rfloor> / 1000000) < he + 1 / 100000000000000"
    using f(2) bhi by simp
  ultimately show ?thesis by (simp only: b_def b1_def M_def ce_def he_def)
qed

lemma direct_capped:
  assumes "25 / 2 < eff" "4 / 10 \<le> pct"
  shows "fl (of_int \<lfloor>fl (max (min (fl (eff * pct)) 5)
            (min (fl (1 / 10)) (fmul eff (fl (9 / 10)))) * 1000000)\<rfloor> / 1000000) = 5"
proof -
  define M where "M = min (fl (1 / 10)) (fmul eff (fl (9 / 10)))"
  have "M \<le> fl (1 / 10)" by (simp add: M_def)
  then have M5: "M \<le> 5" using fl_floor_consts(2) by simp
  have "eff * (4 / 10) \<le> eff * pct" using assms by (intro mult_left_mono) simp_all
  moreover have "5 < eff * (4 / 10)" using assms(1) by simp
  ultimately have "5 \<le> eff * pct" by linarith
  then have "fl 5 \<le> fl (eff * pct)" by (intro fl_mono) simp_all
  then have "5 \<le> fl (eff * pct)" by (simp only: fl_consts)
  then have "max (min (fl (eff * pct)) 5) M = 5" using M5 by simp
  then show ?thesis by (simp only: M_def [symmetric] final_consts)
qed

lemma direct_small:
  assumes "11 / 1000000 \<le> eff" "eff < 1 / 8" "0 \<le> pct"
  shows "8 / 10 * eff < fl (of_int \<lfloor>fl (max (min (fl (eff * pct)) 5)
            (min (fl (1 / 10)) (fmul eff (fl (9 / 10)))) * 1000000)\<rfloor> / 1000000)"
proof -
  define d where "d = fl (1 / 10)"
  define m where "m = fmul eff (fl (9 / 10))"
  define b where "b = max (min (fl (eff * pct)) 5) (min d m)"
  have eff0: "0 < eff" using assms(1) by simp
  have M: "0 \<le> min d m" "min d m \<le> d" "min (1 / 10) (9 / 10 * eff) - 1 / 100000000000000000 \<le> min d m"
    using floor_amount_bounds [OF eff0] by (simp_all only: d_def m_def)
  have d: "1 / 10 \<le> d" "d \<le> 1 / 10 + 1 / 100000000000000000" using fl_floor_consts by (simp_all only: d_def)
  have bM: "min d m \<le> b" by (simp add: b_def)
  have b0: "0 \<le> b" using M(1) bM by linarith
  have b5: "b \<le> 5" unfolding b_def using M(2) d(2) by linarith
  have c9: "9 / 10 \<le> fl (9 / 10)" by (rule fl_floor_consts)
  have p1: "9 / 10 * eff \<le> eff * fl (9 / 10)"
    using mult_left_mono [OF c9, of eff] eff0 by simp
  have p0: "0 \<le> eff * fl (9 / 10)" using p1 eff0 by simp
  show ?thesis
  proof (cases "d \<le> eff * fl (9 / 10)")
    case True
    have "fl d \<le> fl (eff * fl (9 / 10))" using True d(1) by (intro fl_mono) simp_all
    then have "d \<le> m" by (simp only: d_def m_def fmul_def fl_consts)
    then have "d \<le> b" using bM by simp
    then have "fl (of_int \<lfloor>fl (d * 1000000)\<rfloor> / 1000000) \<le> fl (of_int \<lfloor>fl (b * 1000000)\<rfloor> / 1000000)"
      using d(1) by (intro final_mono) simp_all
    then have "d \<le> fl (of_int \<lfloor>fl (b * 1000000)\<rfloor> / 1000000)"
      by (simp only: d_def final_consts)
    then have "8 / 10 * eff < fl (of_int \<lfloor>fl (b * 1000000)\<rfloor> / 1000000)"
      using d(1) assms(2) by simp
    then show ?thesis by (simp only: b_def d_def m_def)
  next
    case False
    then have "9 / 10 * eff < 1 / 10 + 1 / 100000000000000000" using p1 d(2) by simp
    then have "9 / 10 * eff - 2 / 100000000000000000 \<le> min d m" using M(3) by linarith
    then have "9 / 10 * eff - 2 / 100000000000000000 \<le> b" using bM by linarith
    moreover have "b - 1 / 1000000 - 1 / 1000000000000000 < fl (of_int \<lfloor>fl (b * 1000000)\<rfloor> / 1000000)"
      using final_err [OF b0 b5] by blast
    ultimately have "8 / 10 * eff < fl (of_int \<lfloor>fl (b * 1000000)\<rfloor> / 1000000)"
      using assms(1) by linarith
    then show ?thesis by (simp only: b_def d_def m_def)
  qed
qed

lemma dynamic_direct:
  assumes "0 < fl (wb - fl (5 / 100))"
  shows "calculateDynamicBuyAmount wb FetchFailed est r
           = calculateDirectBuyAmount (fl (wb - fl (5 / 100))) r
       \<and> calculateDynamicBuyAmount wb DeserializeFailed est r
           = calculateDirectBuyAmount (fl (wb - fl (5 / 100))) r"
proof -
  have "max 0 (fl (wb - fl (5 / 100))) = fl (wb - fl (5 / 100))" using assms by simp
  then show ?thesis using assms by (simp add: calculateDynamicBuyAmount_def fsub_def)
qed

lemma dynamic_zero:
  assumes "fl (wb - fl (5 / 100)) \<le> 0"
  shows "calculateDynamicBuyAmount wb c est r = 0"
proof -
  have "max 0 (fl (wb - fl (5 / 100))) = 0" using assms by simp
  then show ?thesis by (simp add: calculateDynamicBuyAmount_def fsub_def)
qed

lemma reserves_test:
  assumes "0 \<le> rt"
  shows "fdiv (of_int rt) 1000000 < 1 \<longleftrightarrow> rt < 1000000"
proof (cases "rt < 1000000")
  case True
  then have "rt \<le> 999999" by simp
  then have "(of_int rt :: real) \<le> 999999" by linarith
  then have "(of_int rt :: real) / 1000000 \<le> 999999 / 1000000" by simp
  moreover have "(0::real) \<le> of_int rt / 1000000" using assms by simp
  ultimately have "fl (of_int rt / 1000000) \<le> fl (999999 / 1000000)" by (intro fl_mono)
  then have "fl (of_int rt / 1000000) < 1" using final_consts(3) by linarith
  then show ?thesis using True by (simp add: fdiv_def)
next
  case False
  then have "(1000000::real) \<le> of_int rt" by linarith
  then have "(1::real) \<le> of_int rt / 1000000" by simp
  then have "fl 1 \<le> fl (of_int rt / 1000000)" by (intro fl_mono) simp_all
  then have "1 \<le> fl (of_int rt / 1000000)" by (simp only: fl_consts)
  then show ?thesis using False by (simp add: fdiv_def)
qed

lemma dynamic_reserves:
  assumes "0 < fl (wb - fl (5 / 100))"
  shows "(1000000 \<le> rt \<longrightarrow>
            calculateDynamicBuyAmount wb (Reserves rt) None r
              = calculateDirectBuyAmount (fl (wb - fl (5 / 100))) r
          \<and> fl (1 / 10) \<le> calculateDynamicBuyAmount wb (Reserves rt) (Some e) r
          \<and> calculateDynamicBuyAmount wb (Reserves rt) (Some e) r \<le> 5)
       \<and> (0 \<le> rt \<and> rt < 1000000 \<longrightarrow>
            calculateDynamicBuyAmount wb (Reserves rt) est r \<le> fl (2 / 10)
          \<and> calculateDynamicBuyAmount wb (Reserves rt) est r
              \<le> fl (fl (wb - fl (5 / 100)) * fl (5 / 10)))"
proof -
  have m: "max 0 (fl (wb - fl (5 / 100))) = fl (wb - fl (5 / 100))" using assms by simp
  have d5: "fl (1 / 10) \<le> 5" using fl_floor_consts(2) by simp
  have hi: "calculateDynamicBuyAmount wb (Reserves rt) None r
              = calculateDirectBuyAmount (fl (wb - fl (5 / 100))) r
          \<and> fl (1 / 10) \<le> calculateDynamicBuyAmount wb (Reserves rt) (Some e) r
          \<and> calculateDynamicBuyAmount wb (Reserves rt) (Some e) r \<le> 5"
    if "1000000 \<le> rt"
  proof -
    have "0 \<le> rt" using that by simp
    then have t: "\<not> fdiv (of_int rt) 1000000 < 1" using that by (simp add: reserves_test)
    show ?thesis using t assms d5
      by (simp add: calculateDynamicBuyAmount_def fsub_def m Let_def)
  qed
  have lo: "calculateDynamicBuyAmount wb (Reserves rt) est r \<le> fl (2 / 10)
          \<and> calculateDynamicBuyAmount wb (Reserves rt) est r
              \<le> fl (fl (wb - fl (5 / 100)) * fl (5 / 10))"
    if "0 \<le> rt" "rt < 1000000"
  proof -
    have t: "fdiv (of_int rt) 1000000 < 1" using that by (simp add: reserves_test)
    show ?thesis using t assms
      by (simp add: calculateDynamicBuyAmount_def fsub_def fmul_def m)
  qed
  show ?thesis using hi lo by blast
qed


text \<open>
  Claim C9, as the code has it. The spendable balance of \<open>calculateDynamicBuyAmount\<close> is
  the wallet balance less the reserve of 0.05, as a double; when it is zero or less the
  amount is 0. When the bonding curve cannot be fetched or decoded, or is read with real
  token reserves of at least 1000000 base units but the estimate fails, the amount is that
  of \<open>calculateDirectBuyAmount\<close>, which draws the percentage from the band of the
  spendable balance (above 5: 40 to 60 percent; above 1 and up to 5: 50 to 70 percent; up
  to 1: 60 to 80 percent), caps the scaled amount at 5, raises it to at least
  \<open>min(0.1, 0.9 * spendable)\<close> and rounds it down to 6 decimals, all in double
  arithmetic. For every spendable balance above 0 and every draw:
  \<^item> the amount is at most 5, and less than \<open>0.000001 + 1e-14\<close> below
    \<open>min(0.1, 0.9 * spendable)\<close>;
  \<^item> for a spendable balance from 1/8 to 25/2 the amount lies within the band of the
    spendable balance up to the rounding: above the lower end less \<open>0.000001 + 1e-14\<close>,
    and below the upper end plus \<open>1e-14\<close>;
  \<^item> above 25/2 the amount is exactly 5, which is under 40 percent;
  \<^item> from 0.000011 to below 1/8 the amount is over 80 percent.

  When the curve is read, no band is used: with at least 1000000 base units of real token
  reserves and an estimate the amount is between the double 0.1 and 5, and with fewer
  reserves it is at most the double 0.2 and at most the double of half the spendable
  balance.
\<close>

theorem calculateDirectBuyAmount_band:
  assumes "0 \<le> r" "r < 1" "0 < eff"
  shows "calculateDirectBuyAmount eff r \<le> 5
       \<and> min (1 / 10) (9 / 10 * eff) - 1 / 10 ^ 6 - 1 / 10 ^ 14 < calculateDirectBuyAmount eff r
       \<and> (1 / 8 \<le> eff \<and> eff \<le> 25 / 2 \<longrightarrow>
            (if eff > 5 then 4 / 10 else if eff > 1 then 5 / 10 else 6 / 10) * eff
                - 1 / 10 ^ 6 - 1 / 10 ^ 14 < calculateDirectBuyAmount eff r
          \<and> calculateDirectBuyAmount eff r
                < (if eff > 5 then 6 / 10 else if eff > 1 then 7 / 10 else 8 / 10) * eff + 1 / 10 ^ 14)
       \<and> (25 / 2 < eff \<longrightarrow> calculateDirectBuyAmount eff r = 5)
       \<and> (11 / 10 ^ 6 \<le> eff \<and> eff < 1 / 8 \<longrightarrow> 8 / 10 * eff < calculateDirectBuyAmount eff r)
       \<and> (fl (wb - fl (5 / 100)) = eff \<longrightarrow>
            calculateDynamicBuyAmount wb FetchFailed est r = calculateDirectBuyAmount eff r
          \<and> calculateDynamicBuyAmount wb DeserializeFailed est r = calculateDirectBuyAmount eff r
          \<and> (1000000 \<le> rt \<longrightarrow>
                calculateDynamicBuyAmount wb (Reserves rt) None r = calculateDirectBuyAmount eff r
              \<and> fl (1 / 10) \<le> calculateDynamicBuyAmount wb (Reserves rt) (Some e) r
              \<and> calculateDynamicBuyAmount wb (Reserves rt) (Some e) r \<le> 5)
          \<and> (0 \<le> rt \<and> rt < 1000000 \<longrightarrow>
                calculateDynamicBuyAmount wb (Reserves rt) est r \<le> fl (2 / 10)
              \<and> calculateDynamicBuyAmount wb (Reserves rt) est r \<le> fl (eff * fl (5 / 10))))
       \<and> (fl (wb0 - fl (5 / 100)) \<le> 0 \<longrightarrow> calculateDynamicBuyAmount wb0 c est r = 0)"
proof -
  define c where "c = (if eff > 5 then 4 / 10 else if eff > 1 then 5 / 10 else 6 / 10 :: real)"
  define h where "h = (if eff > 5 then 6 / 10 else if eff > 1 then 7 / 10 else 8 / 10 :: real)"
  define pct where "pct = fadd (fl c) (fmul r (fl (2 / 10)))"
  define amt where "amt = fl (of_int \<lfloor>fl (max (min (fl (eff * pct)) 5)
            (min (fl (1 / 10)) (fmul eff (fl (9 / 10)))) * 1000000)\<rfloor> / 1000000)"
  have amt: "calculateDirectBuyAmount eff r = amt"
    unfolding direct_unfold amt_def pct_def c_def by simp
  have r1: "r \<le> 1" using assms(2) by simp
  have cc: "fl (fl c) = fl c" "0 \<le> fl c" "c - 3 / 100000000000000000 \<le> fl c"
    "fl (fl c + fl (2 / 10)) \<le> h + 1 / 10000000000000000" "h \<le> 8 / 10"
    using fl_consts fl_lo_consts fl_hi_consts by (simp_all add: c_def h_def)
  have p: "fl c \<le> pct" "pct \<le> fl (fl c + fl (2 / 10))"
    using pct_bounds [OF assms(1) r1 cc(2) cc(1)] by (simp_all only: pct_def)
  have p0: "0 \<le> pct" using p(1) cc(2) by linarith
  have g: "amt \<le> 5" "min (1 / 10) (9 / 10 * eff) - 1 / 1000000 - 1 / 100000000000000 < amt"
    using direct_general [OF assms(3) p0] by (simp_all only: amt_def)
  have band: "c * eff - 1 / 1000000 - 1 / 100000000000000 < amt
      \<and> amt < h * eff + 1 / 100000000000000"
    if "1 / 8 \<le> eff" "eff \<le> 25 / 2"
  proof -
    have a: "c - 3 / 100000000000000000 \<le> pct" using p(1) cc(3) by linarith
    have b: "pct \<le> h + 1 / 10000000000000000" using p(2) cc(4) by linarith
    have ce: "c * eff \<le> 5" using that assms(3) by (simp add: c_def)
    have he: "1 / 10 \<le> h * eff" using that assms(3) by (simp add: h_def)
    show ?thesis
      using direct_band [OF assms(3) that(2) a b p0 cc(5) ce he] by (simp only: amt_def)
  qed
  have capped: "amt = 5" if "25 / 2 < eff"
  proof -
    have "5 < eff" using that by simp
    then have "c = 4 / 10" by (simp only: c_def if_True)
    then have "fl c = fl (4 / 10)" by (simp only:)
    then have "4 / 10 \<le> pct" using p(1) fl_lo_consts(1) by linarith
    with that show ?thesis unfolding amt_def by (rule direct_capped)
  qed
  have small: "8 / 10 * eff < amt" if "11 / 1000000 \<le> eff" "eff < 1 / 8"
    unfolding amt_def using that p0 by (rule direct_small)
  have dyn: "calculateDynamicBuyAmount wb FetchFailed est r = calculateDirectBuyAmount eff r
          \<and> calculateDynamicBuyAmount wb DeserializeFailed est r = calculateDirectBuyAmount eff r
          \<and> (1000000 \<le> rt \<longrightarrow>
                calculateDynamicBuyAmount wb (Reserves rt) None r = calculateDirectBuyAmount eff r
              \<and> fl (1 / 10) \<le> calculateDynamicBuyAmount wb (Reserves rt) (Some e) r
              \<and> calculateDynamicBuyAmount wb (Reserves rt) (Some e) r \<le> 5)
          \<and> (0 \<le> rt \<and> rt < 1000000 \<longrightarrow>
                calculateDynamicBuyAmount wb (Reserves rt) est r \<le> fl (2 / 10)
              \<and> calculateDynamicBuyAmount wb (Reserves rt) est r \<le> fl (eff * fl (5 / 10)))"
    if "fl (wb - fl (5 / 100)) = eff"
  proof -
    have pos: "0 < fl (wb - fl (5 / 100))" using that assms(3) by simp
    show ?thesis
      using dynamic_direct [OF pos, of est r] dynamic_reserves [OF pos, of rt r e est]
      unfolding that by blast
  qed
  have zero: "calculateDynamicBuyAmount wb0 c est r = 0" if "fl (wb0 - fl (5 / 100)) \<le> 0" for c
    using that by (rule dynamic_zero)
  have b1: "1 / 8 \<le> eff \<and> eff \<le> 25 / 2 \<longrightarrow>
            (if eff > 5 then 4 / 10 else if eff > 1 then 5 / 10 else 6 / 10) * eff
                - 1 / 10 ^ 6 - 1 / 10 ^ 14 < calculateDirectBuyAmount eff r
          \<and> calculateDirectBuyAmount eff r
                < (if eff > 5 then 6 / 10 else if eff > 1 then 7 / 10 else 8 / 10) * eff + 1 / 10 ^ 14"
    using band unfolding amt c_def h_def by simp
  have b2: "calculateDirectBuyAmount eff r \<le> 5"
    "min (1 / 10) (9 / 10 * eff) - 1 / 10 ^ 6 - 1 / 10 ^ 14 < calculateDirectBuyAmount eff r"
    using g unfolding amt by simp_all
  have b3: "25 / 2 < eff \<longrightarrow> calculateDirectBuyAmount eff r = 5"
    using capped unfolding amt by simp
  have b4: "11 / 10 ^ 6 \<le> eff \<and> eff < 1 / 8 \<longrightarrow> 8 / 10 * eff < calculateDirectBuyAmount eff r"
    using small unfolding amt by simp
  show ?thesis using b1 b2 b3 b4 dyn zero by blast
qed

text \<open>
  The theorem for the wallet balance 2.05, whose spendable balance is the double below 2,
  with the draw 1/2 (60 percent; the amount is 1.199999), with the curve unreadable, read
  with an estimate, and read with low reserves; for the balance 0.03, under the reserve;
  for the spendable balance 20, capped; and for the spendable balance 0.1, raised.
\<close>

theorem calculateDirectBuyAmount_band_witness:
  "fl (fl (205 / 100) - fl (5 / 100)) = 2 - 1 / 2 ^ 52
   \<and> calculateDynamicBuyAmount (fl (205 / 100)) FetchFailed None (1 / 2) = fl (1199999 / 1000000)
   \<and> calculateDirectBuyAmount (2 - 1 / 2 ^ 52) (1 / 2) = fl (1199999 / 1000000)
   \<and> 5 / 10 * (2 - 1 / 2 ^ 52) - 1 / 10 ^ 6 - 1 / 10 ^ 14 < calculateDirectBuyAmount (2 - 1 / 2 ^ 52) (1 / 2)
   \<and> calculateDirectBuyAmount (2 - 1 / 2 ^ 52) (1 / 2) < 7 / 10 * (2 - 1 / 2 ^ 52) + 1 / 10 ^ 14
   \<and> calculateDirectBuyAmount (2 - 1 / 2 ^ 52) (1 / 2) \<le> 5
   \<and> fl (1 / 10) \<le> calculateDynamicBuyAmount (fl (205 / 100)) (Reserves 2000000) (Some 30000000) (1 / 2)
   \<and> calculateDynamicBuyAmount (fl (205 / 100)) (Reserves 2000000) (Some 30000000) (1 / 2) \<le> 5
   \<and> calculateDynamicBuyAmount (fl (205 / 100)) (Reserves 500000) None (1 / 2) \<le> fl (2 / 10)
   \<and> calculateDynamicBuyAmount (fl (3 / 100)) FetchFailed None (1 / 2) = 0
   \<and> calculateDirectBuyAmount 20 0 = 5
   \<and> 8 / 10 * fl (1 / 10) < calculateDirectBuyAmount (fl (1 / 10)) 0"
proof -
  have e: "fl (fl (205 / 100) - fl (5 / 100)) = 2 - 1 / 2 ^ 52"
    by (simp add: dbl_simps)
  have z: "fl (fl (3 / 100) - fl (5 / 100)) \<le> 0"
    by (simp add: dbl_simps)
  have v: "calculateDirectBuyAmount (2 - 1 / 2 ^ 52) (1 / 2) = fl (1199999 / 1000000)"
    unfolding calculateDirectBuyAmount_def Let_def by (simp add: dbl_simps)
  have s: "(11 / 10 ^ 6 :: real) \<le> fl (1 / 10)" "fl (1 / 10) < 1 / 8" "0 < fl (1 / 10)"
    by (simp_all add: dbl_simps)
  show ?thesis
    using calculateDirectBuyAmount_band [of "1 / 2" "2 - 1 / 2 ^ 52" "fl (205 / 100)" None
            2000000 30000000 "fl (3 / 100)" FetchFailed]
          calculateDirectBuyAmount_band [of "1 / 2" "2 - 1 / 2 ^ 52" "fl (205 / 100)" None
            500000 30000000 "fl (3 / 100)" FetchFailed]
          calculateDirectBuyAmount_band [of 0 20]
          calculateDirectBuyAmount_band [of 0 "fl (1 / 10)"]
          e z v s
    by simp
qed


text \<open>
  Where the wording of C9 fails. A spendable balance of 20 gives the capped amount 5, which
  is 25 percent and below the band of 40 to 60 percent. A spendable balance of 0.1 gives
  0.09, which is 90 percent and above the band of 60 to 80 percent. A spendable balance of
  0.75 with the draw 0 gives 0.449999, more than one millionth under 60 percent of it
  (0.45). With the curve read, the balance 6.05 (spendable 6) and an estimate of 30000000
  tokens for the test amount of 1, the amount is 29/30 as a double, which is under 40
  percent of 6.
\<close>

theorem calculateDirectBuyAmount_counterexample:
  "calculateDirectBuyAmount 20 0 = 5 \<and> (5::real) < 4 / 10 * 20
   \<and> calculateDirectBuyAmount (fl (1 / 10)) 0 = fl (9 / 100) \<and> 8 / 10 * fl (1 / 10) < fl (9 / 100)
   \<and> calculateDirectBuyAmount (3 / 4) 0 = fl (449999 / 1000000)
   \<and> fl (449999 / 1000000) < 6 / 10 * (3 / 4) - 1 / 10 ^ 6
   \<and> fl (fl (605 / 100) - fl (5 / 100)) = 6
   \<and> calculateDynamicBuyAmount (fl (605 / 100)) (Reserves 2000000) (Some 30000000) 0 = fl (29 / 30)
   \<and> fl (29 / 30) < 4 / 10 * 6"
proof -
  have a: "calculateDirectBuyAmount 20 0 = 5"
    unfolding calculateDirectBuyAmount_def Let_def by (simp add: dbl_simps)
  have b: "calculateDirectBuyAmount (fl (1 / 10)) 0 = fl (9 / 100)"
    unfolding calculateDirectBuyAmount_def Let_def by (simp add: dbl_simps)
  have c: "calculateDirectBuyAmount (3 / 4) 0 = fl (449999 / 1000000)"
    unfolding calculateDirectBuyAmount_def Let_def by (simp add: dbl_simps)
  have d: "calculateDynamicBuyAmount (fl (605 / 100)) (Reserves 2000000) (Some 30000000) 0 = fl (29 / 30)"
    unfolding calculateDynamicBuyAmount_def Let_def by (simp add: dbl_simps)
  have e: "8 / 10 * fl (1 / 10) < fl (9 / 100)" "fl (449999 / 1000000) < 6 / 10 * (3 / 4) - 1 / 10 ^ 6"
    "fl (fl (605 / 100) - fl (5 / 100)) = 6" "fl (29 / 30) < 4 / 10 * 6"
    by (simp_all add: dbl_simps)
  show ?thesis using a b c d e by simp
qed

section \<open>Properties of the sell trigger policy\<close>

lemma determineConsecutiveSells_range:
  "1 \<le> determineConsecutiveSells n rand u v
   \<and> determineConsecutiveSells n rand u v \<le> max 1 (min 7 n)"
proof -
  have "\<exists>sellCount. determineConsecutiveSells n rand u v =
      (if min 7 n \<le> 1 then 1 else max 1 (min (min 7 n) sellCount))"
    unfolding determineConsecutiveSells_def Let_def by (rule exI) (rule refl)
  then show ?thesis by auto
qed

lemma determineConsecutiveSells_le:
  "1 \<le> n \<Longrightarrow> determineConsecutiveSells n rand u v \<le> n"
  using determineConsecutiveSells_range [of n rand u v] by arith

text \<open>
  Claim C10. For every integer \<open>availableWallets \<le> 1\<close>, zero and the negative numbers
  included, \<open>determineConsecutiveSells\<close> returns exactly 1; for every
  \<open>availableWallets \<ge> 2\<close> it returns an integer between 1 and \<open>min(7, availableWallets)\<close>;
  the result is always at least 1, so for \<open>availableWallets \<le> 0\<close> it exceeds the number
  of wallets. This holds for all values of the three draws.
\<close>

theorem determineConsecutiveSells_bounds:
  "(n \<le> 1 \<longrightarrow> determineConsecutiveSells n rand u v = 1)
   \<and> (2 \<le> n \<longrightarrow> 1 \<le> determineConsecutiveSells n rand u v
                 \<and> determineConsecutiveSells n rand u v \<le> min 7 n)
   \<and> 1 \<le> determineConsecutiveSells n rand u v
   \<and> (n \<le> 0 \<longrightarrow> n < determineConsecutiveSells n rand u v)"
proof -
  have "n \<le> 1 \<Longrightarrow> determineConsecutiveSells n rand u v = 1"
    by (simp add: determineConsecutiveSells_def)
  then show ?thesis
    using determineConsecutiveSells_range [of n rand u v] by auto
qed

text \<open>
  The theorem for no wallet at all, and for 9 wallets with draws that reach the cap of 7.
\<close>

theorem determineConsecutiveSells_bounds_witness:
  "determineConsecutiveSells 0 (1 / 2) (1 / 2) (1 / 2) = 1
   \<and> (0::int) < determineConsecutiveSells 0 (1 / 2) (1 / 2) (1 / 2)
   \<and> 1 \<le> determineConsecutiveSells 9 (7 / 10) (1 / 2) (99 / 100)
   \<and> determineConsecutiveSells 9 (7 / 10) (1 / 2) (99 / 100) \<le> 7
   \<and> determineConsecutiveSells 9 (7 / 10) (1 / 2) (99 / 100) = 7"
  using determineConsecutiveSells_bounds [of 0 "1 / 2" "1 / 2" "1 / 2"]
        determineConsecutiveSells_bounds [of 9 "7 / 10" "1 / 2" "99 / 100"]
  by (simp add: determineConsecutiveSells_def js_round_def Let_def)

lemma determineNextSellPoint_range:
  "4 \<le> determineNextSellPoint rand u v \<and> determineNextSellPoint rand u v \<le> 17"
proof -
  have "\<exists>buyCount. determineNextSellPoint rand u v = max 4 (min 17 buyCount)"
    unfolding determineNextSellPoint_def Let_def by (rule exI) (rule refl)
  then show ?thesis by auto
qed

lemma retry_range:
  assumes "0 \<le> r" "r < (1::real)"
  shows "2 + \<lfloor>r * 3\<rfloor> \<in> {2, 3, 4::int}"
proof -
  have "0 \<le> \<lfloor>r * 3\<rfloor>" using assms by simp
  moreover have "\<lfloor>r * 3\<rfloor> < 3" using assms by (simp add: floor_less_iff)
  ultimately have "\<lfloor>r * 3\<rfloor> = 0 \<or> \<lfloor>r * 3\<rfloor> = 1 \<or> \<lfloor>r * 3\<rfloor> = 2" by arith
  then show ?thesis by auto
qed

lemma pick_in_range:
  assumes "0 \<le> r" "r < (1::real)" "0 < n"
  shows "nat \<lfloor>r * of_nat n\<rfloor> < n"
proof -
  have "r * real n < real n" using assms by simp
  then have "\<lfloor>r * real n\<rfloor> < int n" by (simp add: floor_less_iff)
  moreover have "0 \<le> \<lfloor>r * real n\<rfloor>" using assms by simp
  ultimately show ?thesis by linarith
qed

section \<open>The ledger under a sell\<close>

lemma set_js_set_add [simp]: "set (js_set_add x xs) = insert x (set xs)"
  by (auto simp: js_set_add_def)

lemma distinct_js_set_add [simp]: "distinct (js_set_add x xs) = distinct xs"
  by (auto simp: js_set_add_def)

lemma keys_js_map_set [simp]: "fst ` set (js_map_set k v m) = insert k (fst ` set m)"
  by (induction m) auto

lemma set_js_map_set: "set (js_map_set k v m) \<subseteq> insert (k, v) (set m)"
  by (induction m) auto

lemma keys_match_set: "keys_match m \<Longrightarrow> wallet v = k \<Longrightarrow> keys_match (js_map_set k v m)"
  using set_js_map_set [of k v m] by (auto simp: keys_match_def)

lemma keys_match_delete: "keys_match m \<Longrightarrow> keys_match (js_map_delete k m)"
  by (auto simp: keys_match_def js_map_delete_def)

lemma sell_frame_refl [simp]: "sell_frame s s"
  by (simp add: sell_frame_def)

lemma sell_frame_trans: "sell_frame s t \<Longrightarrow> sell_frame t u \<Longrightarrow> sell_frame s u"
  by (auto simp: sell_frame_def)

lemma sell_frame_keyPress: "sell_frame s (onKeyPress k s)"
  by (simp add: sell_frame_def onKeyPress_def)

lemma sell_frame_keyPresses: "sell_frame s (keyPresses ks s)"
  unfolding keyPresses_def
proof (induction ks arbitrary: s)
  case Nil
  show ?case by simp
next
  case (Cons k ks)
  show ?case using sell_frame_trans [OF sell_frame_keyPress Cons] by simp
qed

lemma executeWalletSell_effect:
  assumes "executeWalletSell b info s = (s', r)"
  shows "sell_frame s s'"
    and "isPaused s' = isPaused s"
    and "attempts s' = attempts s @ [\<lparr>at_direction = Sell, at_wallet = wallet info, at_paused = isPaused s\<rparr>]"
    and "usedSellWallets s' = js_set_add (wallet info) (usedSellWallets s)"
    and "r = b"
  using assms
  by (auto simp: executeWalletSell_def sell_frame_def Let_def keys_match_delete split: if_splits)

lemma executeSessionSell_frame:
  assumes "executeSessionSell e lastKey s = (s', r)"
  shows "sell_frame s s'"
  using assms
  by (auto simp: executeSessionSell_def Let_def split: option.splits if_splits prod.splits
           dest: executeWalletSell_effect(1))

lemma sell_loop_frame:
  "sell_loop env n i (s, c, l) = (s', c', l') \<Longrightarrow> sell_frame s s' \<and> c' \<le> c + n"
proof (induction n arbitrary: i s c l)
  case 0
  then show ?case by simp
next
  case (Suc n)
  obtain s1 r where e: "executeSessionSell (env i) l (keyPresses (se_keys (env i)) s) = (s1, r)"
    by (cases "executeSessionSell (env i) l (keyPresses (se_keys (env i)) s)")
  have f1: "sell_frame s s1"
    using sell_frame_trans [OF sell_frame_keyPresses executeSessionSell_frame [OF e]] .
  show ?case
  proof (cases "sr_success r")
    case True
    with Suc.prems e have "sell_loop env n (Suc i) (s1, Suc c, sr_wallet r) = (s', c', l')"
      by simp
    from Suc.IH [OF this] f1 show ?thesis
      by (auto intro: sell_frame_trans)
  next
    case False
    with Suc.prems e f1 show ?thesis by auto
  qed
qed

lemma executeSessionSells_frame:
  assumes "executeSessionSells env lastKey s = (s', r)"
  shows "sell_frame s s' \<and> sells_success r = (sells_count r > 0)
       \<and> sells_count r \<le> length (filter (\<lambda>(pubKey, _). pubKey \<notin> set (usedSellWallets s)) (successfulBuyWallets s))"
proof -
  let ?n = "length (filter (\<lambda>(pubKey, _). pubKey \<notin> set (usedSellWallets s)) (successfulBuyWallets s))"
  show ?thesis
  proof (cases "?n = 0")
    case True
    with assms have "s' = s" "r = \<lparr>sells_success = False, sells_count = 0\<rparr>"
      by (simp_all add: executeSessionSells_def)
    then show ?thesis by simp
  next
    case False
    obtain rand u v where d: "env_consecutive env = (rand, u, v)"
      by (cases "env_consecutive env")
    define k where "k = determineConsecutiveSells (int ?n) rand u v"
    obtain s1 c l where sl: "sell_loop (env_sell env) (nat k) 0 (s, 0, lastKey) = (s1, c, l)"
      by (cases "sell_loop (env_sell env) (nat k) 0 (s, 0, lastKey)")
    from assms False d sl have r: "s' = s1" "r = \<lparr>sells_success = c > 0, sells_count = c\<rparr>"
      by (simp_all add: executeSessionSells_def Let_def k_def)
    from sell_loop_frame [OF sl] have f: "sell_frame s s1" and c: "c \<le> nat k" by simp_all
    have "1 \<le> int ?n" using False by linarith
    then have "k \<le> int ?n" unfolding k_def by (rule determineConsecutiveSells_le)
    with c have "c \<le> ?n" by linarith
    with r f show ?thesis by simp
  qed
qed

text \<open>
  Claim C8. For every \<open>availableWallets \<ge> 1\<close> and every value of the draws,
  \<open>determineConsecutiveSells availableWallets\<close> is at most \<open>availableWallets\<close>; and the
  number of sells that a sequence of \<open>executeSessionSells\<close> counts never exceeds the number
  of wallets that hold tokens and have not been used for selling when the sequence starts.
\<close>

theorem consecutive_sells_capped:
  "(1 \<le> n \<longrightarrow> determineConsecutiveSells n rand u v \<le> n)
   \<and> sells_count (snd (executeSessionSells env lastKey s))
       \<le> length (filter (\<lambda>(pubKey, _). pubKey \<notin> set (usedSellWallets s)) (successfulBuyWallets s))"
proof -
  obtain s1 r where e: "executeSessionSells env lastKey s = (s1, r)"
    by (cases "executeSessionSells env lastKey s")
  from executeSessionSells_frame [OF e] determineConsecutiveSells_le [of n rand u v]
  show ?thesis by (simp add: e)
qed

subsection \<open>Which wallet is sold\<close>

lemma eligibleEntries_keys:
  "fst ` set (eligibleEntries m used lastKey) =
     {k \<in> fst ` set m. k \<notin> set used \<and> \<not> (lastKey = Some k \<and> length m > 1)}"
  by (auto simp: eligibleEntries_def image_iff split: if_splits)

lemma eligibleEntries_subset: "set (eligibleEntries m used lastKey) \<subseteq> set m"
  by (auto simp: eligibleEntries_def)

lemma two_keys_length:
  assumes "k \<in> fst ` set m" "l \<in> fst ` set m" "k \<noteq> l"
  shows "1 < length m"
proof (cases m)
  case Nil
  with assms show ?thesis by simp
next
  case (Cons p ps)
  with assms show ?thesis by (cases ps) auto
qed

lemma eligibleEntries_others:
  assumes "{k \<in> fst ` set m. k \<notin> set used \<and> lastKey \<noteq> Some k} \<noteq> {}"
  shows "fst ` set (eligibleEntries m used lastKey) =
           {k \<in> fst ` set m. k \<notin> set used \<and> lastKey \<noteq> Some k}"
proof -
  from assms obtain k where k: "k \<in> fst ` set m" "lastKey \<noteq> Some k" by blast
  have "length m > 1" if "l \<in> fst ` set m" "lastKey = Some l" for l
    using two_keys_length [OF k(1) that(1)] k(2) that(2) by blast
  then show ?thesis unfolding eligibleEntries_keys by blast
qed

lemma executeSessionSell_pick:
  assumes ne: "eligibleEntries (successfulBuyWallets s) (usedSellWallets s) lastKey \<noteq> []"
      and pick: "0 \<le> se_pick e" "se_pick e < 1"
  shows "\<exists>p \<in> set (eligibleEntries (successfulBuyWallets s) (usedSellWallets s) lastKey).
           attempts (fst (executeSessionSell e lastKey s)) =
             attempts s @ [\<lparr>at_direction = Sell, at_wallet = wallet (snd p), at_paused = isPaused s\<rparr>]"
proof -
  let ?E = "eligibleEntries (successfulBuyWallets s) (usedSellWallets s) lastKey"
  let ?i = "nat \<lfloor>se_pick e * of_nat (length ?E)\<rfloor>"
  have i: "?i < length ?E" using pick ne by (intro pick_in_range) simp_all
  then have mem: "?E ! ?i \<in> set ?E" by simp
  obtain s1 b where w: "executeWalletSell (se_sent e) (snd (?E ! ?i)) s = (s1, b)"
    by (cases "executeWalletSell (se_sent e) (snd (?E ! ?i)) s")
  have "fst (executeSessionSell e lastKey s) = s1"
    using ne i w by (simp add: executeSessionSell_def eligibleWallets_def Let_def)
  with executeWalletSell_effect(3) [OF w] mem show ?thesis by auto
qed

lemma executeSessionSell_fallback:
  assumes e: "eligibleEntries (successfulBuyWallets s) (usedSellWallets s) lastKey = []"
      and l: "lastKey = Some l" "l \<noteq> []" "l \<notin> set (usedSellWallets s)"
      and m: "map_of (successfulBuyWallets s) l = Some info"
  shows "attempts (fst (executeSessionSell e' lastKey s)) =
           attempts s @ [\<lparr>at_direction = Sell, at_wallet = wallet info, at_paused = isPaused s\<rparr>]"
proof -
  obtain s1 b where w: "executeWalletSell (se_sent e') info s = (s1, b)"
    by (cases "executeWalletSell (se_sent e') info s")
  have "fst (executeSessionSell e' lastKey s) = s1"
    using e l m w by (simp add: executeSessionSell_def eligibleWallets_def Let_def)
  with executeWalletSell_effect(3) [OF w] show ?thesis by simp
qed

lemma executeSessionSell_none:
  assumes e: "eligibleEntries (successfulBuyWallets s) (usedSellWallets s) lastKey = []"
      and l: "\<forall>l. lastKey = Some l \<longrightarrow> l \<notin> fst ` set (successfulBuyWallets s) \<or> l \<in> set (usedSellWallets s)"
  shows "executeSessionSell e' lastKey s = (s, Obj False None)"
proof (cases lastKey)
  case None
  with e show ?thesis by (simp add: executeSessionSell_def eligibleWallets_def)
next
  case (Some l')
  with l have "l' \<notin> fst ` set (successfulBuyWallets s) \<or> l' \<in> set (usedSellWallets s)" by simp
  then have "(if l' \<noteq> [] \<and> l' \<notin> set (usedSellWallets s)
              then map_of (successfulBuyWallets s) l' else None) = None"
    by (auto simp: map_of_eq_None_iff)
  with e Some show ?thesis by (simp add: executeSessionSell_def eligibleWallets_def)
qed

lemma sells_fresh_refl [simp]: "sells_fresh s s"
  by (simp add: sells_fresh_def)

lemma sells_fresh_trans:
  assumes "sells_fresh s t" "sells_fresh t u" "set (usedSellWallets s) \<subseteq> set (usedSellWallets t)"
  shows "sells_fresh s u"
proof -
  from assms(1) obtain n1 where n1: "attempts t = attempts s @ n1"
    "\<forall>a \<in> set n1. at_direction a = Sell \<and> at_wallet a \<notin> set (usedSellWallets s)"
    unfolding sells_fresh_def by blast
  from assms(2) obtain n2 where n2: "attempts u = attempts t @ n2"
    "\<forall>a \<in> set n2. at_direction a = Sell \<and> at_wallet a \<notin> set (usedSellWallets t)"
    unfolding sells_fresh_def by blast
  have "attempts u = attempts s @ (n1 @ n2)" using n1(1) n2(1) by simp
  moreover have "\<forall>a \<in> set (n1 @ n2). at_direction a = Sell \<and> at_wallet a \<notin> set (usedSellWallets s)"
    using n1(2) n2(2) assms(3) by auto
  ultimately show ?thesis unfolding sells_fresh_def by blast
qed

lemma sells_fresh_keyPresses: "sells_fresh s (keyPresses ks s)"
proof -
  have "attempts (fold onKeyPress ks s) = attempts s" for s
    by (induction ks arbitrary: s) (simp_all add: onKeyPress_def)
  then show ?thesis by (simp add: sells_fresh_def keyPresses_def)
qed

lemma used_keyPresses [simp]: "usedSellWallets (keyPresses ks s) = usedSellWallets s"
proof -
  have "usedSellWallets (fold onKeyPress ks s) = usedSellWallets s" for s
    by (induction ks arbitrary: s) (simp_all add: onKeyPress_def)
  then show ?thesis by (simp add: keyPresses_def)
qed

lemma buyWallets_keyPresses [simp]: "successfulBuyWallets (keyPresses ks s) = successfulBuyWallets s"
proof -
  have "successfulBuyWallets (fold onKeyPress ks s) = successfulBuyWallets s" for s
    by (induction ks arbitrary: s) (simp_all add: onKeyPress_def)
  then show ?thesis by (simp add: keyPresses_def)
qed

lemma attempts_keyPresses [simp]: "attempts (keyPresses ks s) = attempts s"
proof -
  have "attempts (fold onKeyPress ks s) = attempts s" for s
    by (induction ks arbitrary: s) (simp_all add: onKeyPress_def)
  then show ?thesis by (simp add: keyPresses_def)
qed

lemma executeSessionSell_fresh:
  assumes km: "keys_match (successfulBuyWallets s)"
      and pick: "0 \<le> se_pick e" "se_pick e < 1"
  shows "sells_fresh s (fst (executeSessionSell e lastKey s))"
proof -
  let ?m = "successfulBuyWallets s" and ?u = "usedSellWallets s"
  let ?E = "eligibleEntries ?m ?u lastKey"
  let ?s' = "fst (executeSessionSell e lastKey s)"
  show ?thesis
  proof (cases "?E = []")
    case False
    from executeSessionSell_pick [OF this pick]
    obtain p where p: "p \<in> set ?E"
      "attempts ?s' = attempts s @ [\<lparr>at_direction = Sell, at_wallet = wallet (snd p), at_paused = isPaused s\<rparr>]"
      by blast
    have "fst p \<in> fst ` set ?E" using p(1) by simp
    then have "fst p \<notin> set ?u" unfolding eligibleEntries_keys by auto
    moreover have "wallet (snd p) = fst p"
      using p(1) km eligibleEntries_subset [of ?m ?u lastKey] by (auto simp: keys_match_def)
    ultimately show ?thesis using p(2) by (simp add: sells_fresh_def)
  next
    case True
    show ?thesis
    proof (cases "\<exists>l info. lastKey = Some l \<and> l \<noteq> [] \<and> l \<notin> set ?u \<and> map_of ?m l = Some info")
      case True
      then obtain l info where l: "lastKey = Some l" "l \<noteq> []" "l \<notin> set ?u" "map_of ?m l = Some info"
        by blast
      from l(4) have "(l, info) \<in> set ?m" by (rule map_of_SomeD)
      with km have "wallet info = l" by (auto simp: keys_match_def)
      with executeSessionSell_fallback [OF \<open>?E = []\<close> l, of e] l(3) show ?thesis
        by (simp add: sells_fresh_def)
    next
      case False
      then have "executeSessionSell e lastKey s = (s, Obj False None)"
        using True by (auto simp: executeSessionSell_def eligibleWallets_def split: option.splits)
      then show ?thesis by simp
    qed
  qed
qed

lemma sell_loop_fresh:
  assumes "\<forall>i. 0 \<le> se_pick (env i) \<and> se_pick (env i) < 1"
  shows "keys_match (successfulBuyWallets s) \<Longrightarrow> sells_fresh s (fst (sell_loop env n i (s, c, l)))"
proof (induction n arbitrary: i s c l)
  case 0
  then show ?case by simp
next
  case (Suc n)
  let ?s0 = "keyPresses (se_keys (env i)) s"
  obtain s1 r where e: "executeSessionSell (env i) l ?s0 = (s1, r)"
    by (cases "executeSessionSell (env i) l ?s0")
  have km0: "keys_match (successfulBuyWallets ?s0)" using Suc.prems by simp
  have "sells_fresh ?s0 s1"
    using executeSessionSell_fresh [OF km0, of "env i" l] assms e by simp
  with sells_fresh_keyPresses [of s "se_keys (env i)"] have f1: "sells_fresh s s1"
    by (rule sells_fresh_trans) simp
  have fr: "sell_frame s s1"
    using sell_frame_trans [OF sell_frame_keyPresses executeSessionSell_frame [OF e]] .
  show ?case
  proof (cases "sr_success r")
    case True
    have km1: "keys_match (successfulBuyWallets s1)" using fr Suc.prems by (simp add: sell_frame_def)
    have "sells_fresh s1 (fst (sell_loop env n (Suc i) (s1, Suc c, sr_wallet r)))"
      using Suc.IH [OF km1] .
    with f1 fr have "sells_fresh s (fst (sell_loop env n (Suc i) (s1, Suc c, sr_wallet r)))"
      by (auto intro: sells_fresh_trans simp: sell_frame_def)
    with True e show ?thesis by simp
  next
    case False
    with e f1 show ?thesis by simp
  qed
qed

lemma executeSessionSells_fresh:
  assumes "\<forall>i. 0 \<le> se_pick (env_sell env i) \<and> se_pick (env_sell env i) < 1"
      and "keys_match (successfulBuyWallets s)"
  shows "sells_fresh s (fst (executeSessionSells env lastKey s))"
proof -
  let ?n = "length (filter (\<lambda>(pubKey, _). pubKey \<notin> set (usedSellWallets s)) (successfulBuyWallets s))"
  show ?thesis
  proof (cases "?n = 0")
    case True
    then show ?thesis by (simp add: executeSessionSells_def)
  next
    case False
    obtain rand u v where d: "env_consecutive env = (rand, u, v)"
      by (cases "env_consecutive env")
    define k where "k = nat (determineConsecutiveSells (int ?n) rand u v)"
    obtain s1 c l where sl: "sell_loop (env_sell env) k 0 (s, 0, lastKey) = (s1, c, l)"
      by (cases "sell_loop (env_sell env) k 0 (s, 0, lastKey)")
    have "sells_fresh s (fst (sell_loop (env_sell env) k 0 (s, 0, lastKey)))"
      using assms by (rule sell_loop_fresh)
    with sl have "sells_fresh s s1" by simp
    moreover have "fst (executeSessionSells env lastKey s) = s1"
      using False d sl by (simp add: executeSessionSells_def Let_def k_def)
    ultimately show ?thesis by simp
  qed
qed

lemma executeSessionSells_first:
  assumes km: "keys_match (successfulBuyWallets s)"
      and picks: "\<forall>i. 0 \<le> se_pick (env_sell env i) \<and> se_pick (env_sell env i) < 1"
      and ne: "{k \<in> fst ` set (successfulBuyWallets s).
                 k \<notin> set (usedSellWallets s) \<and> lastKey \<noteq> Some k} \<noteq> {}"
  shows "\<exists>w \<in> {k \<in> fst ` set (successfulBuyWallets s).
                   k \<notin> set (usedSellWallets s) \<and> lastKey \<noteq> Some k}.
           \<exists>p rest. attempts (fst (executeSessionSells env lastKey s)) =
                       attempts s @ \<lparr>at_direction = Sell, at_wallet = w, at_paused = p\<rparr> # rest"
proof -
  let ?m = "successfulBuyWallets s" and ?u = "usedSellWallets s"
  let ?others = "{k \<in> fst ` set ?m. k \<notin> set ?u \<and> lastKey \<noteq> Some k}"
  let ?avail = "filter (\<lambda>(pubKey, _). pubKey \<notin> set ?u) ?m"
  from ne obtain k where k: "k \<in> fst ` set ?m" "k \<notin> set ?u" by blast
  then obtain info where "(k, info) \<in> set ?m" by auto
  with k(2) have "(k, info) \<in> set ?avail" by simp
  then have "?avail \<noteq> []" by (metis empty_iff empty_set)
  then have av: "length ?avail \<noteq> 0" by simp
  obtain rand u v where d: "env_consecutive env = (rand, u, v)"
    by (cases "env_consecutive env")
  define c where "c = determineConsecutiveSells (int (length ?avail)) rand u v"
  have "1 \<le> c" unfolding c_def using determineConsecutiveSells_range by blast
  then obtain n where n: "nat c = Suc n" by (cases "nat c") auto
  let ?e = "env_sell env 0"
  let ?s0 = "keyPresses (se_keys ?e) s"
  obtain s1 r where e: "executeSessionSell ?e lastKey ?s0 = (s1, r)"
    by (cases "executeSessionSell ?e lastKey ?s0")
  have km0: "keys_match (successfulBuyWallets ?s0)" using km by simp
  let ?E = "eligibleEntries ?m ?u lastKey"
  have keys: "fst ` set ?E = ?others" using ne by (rule eligibleEntries_others)
  with ne have "?E \<noteq> []" by auto
  then have "eligibleEntries (successfulBuyWallets ?s0) (usedSellWallets ?s0) lastKey \<noteq> []"
    by simp
  from executeSessionSell_pick [OF this, of ?e] picks e
  obtain p where p: "p \<in> set ?E"
    "attempts s1 = attempts s @ [\<lparr>at_direction = Sell, at_wallet = wallet (snd p), at_paused = isPaused ?s0\<rparr>]"
    by auto
  have "wallet (snd p) = fst p"
    using p(1) km eligibleEntries_subset [of ?m ?u lastKey] by (auto simp: keys_match_def)
  moreover have "fst p \<in> ?others" using p(1) keys by blast
  ultimately have w: "wallet (snd p) \<in> ?others" by simp
  have fr: "sell_frame s s1"
    using sell_frame_trans [OF sell_frame_keyPresses executeSessionSell_frame [OF e]] .
  then have km1: "keys_match (successfulBuyWallets s1)" using km by (simp add: sell_frame_def)
  define s' where "s' = fst (sell_loop (env_sell env) (Suc n) 0 (s, 0, lastKey))"
  have "\<exists>rest. attempts s' = attempts s1 @ rest"
  proof (cases "sr_success r")
    case True
    then have "s' = fst (sell_loop (env_sell env) n (Suc 0) (s1, Suc 0, sr_wallet r))"
      using e by (simp add: s'_def)
    moreover have "sells_fresh s1 (fst (sell_loop (env_sell env) n (Suc 0) (s1, Suc 0, sr_wallet r)))"
      using picks km1 by (rule sell_loop_fresh)
    ultimately show ?thesis by (auto simp: sells_fresh_def)
  next
    case False
    then have "s' = s1" using e by (simp add: s'_def)
    then show ?thesis by simp
  qed
  then obtain rest where rest: "attempts s' = attempts s1 @ rest" by blast
  have "fst (executeSessionSells env lastKey s) = s'"
    using av d n by (simp add: executeSessionSells_def Let_def c_def s'_def split_beta)
  with rest p(2) have "attempts (fst (executeSessionSells env lastKey s)) =
      attempts s @ \<lparr>at_direction = Sell, at_wallet = wallet (snd p), at_paused = isPaused ?s0\<rparr> # rest"
    by simp
  with w show ?thesis by blast
qed

text \<open>
  Claim C6, as the code has it. \<open>executeSessionSell\<close> avoids the wallet it is given as
  \<open>lastUsedWalletPubKey\<close>. Let the other eligible wallets be the keys of
  \<open>successfulBuyWallets\<close> that are not in \<open>usedSellWallets\<close> and differ from that wallet.
  When there is one, the sell comes from one of them. When there is none and the given
  wallet holds tokens and has not been used for selling, the sell goes ahead with it as
  the fallback. When there is none and the given wallet is not eligible either, no sell
  is attempted. A sequence of \<open>executeSessionSells\<close> gives its own argument, the wallet
  that bought last, to its first sell: when another eligible wallet exists, the first
  sell of the sequence comes from one. The later sells of a sequence are given the wallet
  that sold just before, so nothing keeps them from the wallet that bought last. Each
  sell shows as one more entry of \<open>attempts\<close>; the draws that pick a wallet lie in
  \<open>[0, 1)\<close>.
\<close>

theorem executeSessionSell_selection:
  assumes km: "keys_match (successfulBuyWallets s)"
      and pick: "0 \<le> se_pick e" "se_pick e < 1"
      and picks: "\<forall>i. 0 \<le> se_pick (env_sell env i) \<and> se_pick (env_sell env i) < 1"
  shows "let others = {k \<in> fst ` set (successfulBuyWallets s).
                          k \<notin> set (usedSellWallets s) \<and> lastKey \<noteq> Some k};
             s' = fst (executeSessionSell e lastKey s);
             sell = (\<lambda>w. \<lparr>at_direction = Sell, at_wallet = w, at_paused = isPaused s\<rparr>)
         in (others \<noteq> {} \<longrightarrow> (\<exists>w \<in> others. attempts s' = attempts s @ [sell w]))
          \<and> (others = {} \<longrightarrow>
               (\<forall>l. lastKey = Some l \<and> l \<noteq> [] \<and> l \<in> fst ` set (successfulBuyWallets s)
                      \<and> l \<notin> set (usedSellWallets s) \<longrightarrow> attempts s' = attempts s @ [sell l]))
          \<and> (others = {} \<and> (\<forall>l. lastKey = Some l \<longrightarrow>
                 l \<notin> fst ` set (successfulBuyWallets s) \<or> l \<in> set (usedSellWallets s))
               \<longrightarrow> attempts s' = attempts s)
          \<and> (others \<noteq> {} \<longrightarrow>
               (\<exists>w \<in> others. \<exists>p rest.
                  attempts (fst (executeSessionSells env lastKey s)) =
                    attempts s @ \<lparr>at_direction = Sell, at_wallet = w, at_paused = p\<rparr> # rest))"
proof -
  let ?m = "successfulBuyWallets s" and ?u = "usedSellWallets s"
  let ?E = "eligibleEntries ?m ?u lastKey"
  let ?others = "{k \<in> fst ` set ?m. k \<notin> set ?u \<and> lastKey \<noteq> Some k}"
  let ?s' = "fst (executeSessionSell e lastKey s)"
  let ?sell = "\<lambda>w. \<lparr>at_direction = Sell, at_wallet = w, at_paused = isPaused s\<rparr>"
  have wk: "wallet (snd p) = fst p" if "p \<in> set ?E" for p
    using that km eligibleEntries_subset [of ?m ?u lastKey] by (auto simp: keys_match_def)
  have a: "\<exists>w \<in> ?others. attempts ?s' = attempts s @ [?sell w]" if ne: "?others \<noteq> {}"
  proof -
    have keys: "fst ` set ?E = ?others" using ne by (rule eligibleEntries_others)
    with ne have "?E \<noteq> []" by auto
    from executeSessionSell_pick [OF this pick]
    obtain p where p: "p \<in> set ?E" "attempts ?s' = attempts s @ [?sell (wallet (snd p))]"
      by blast
    from p(1) keys have "fst p \<in> ?others" by blast
    with p wk [OF p(1)] show ?thesis by auto
  qed
  have b: "attempts ?s' = attempts s @ [?sell l]"
    if em: "?others = {}" and l: "lastKey = Some l" "l \<noteq> []" "l \<in> fst ` set ?m" "l \<notin> set ?u" for l
  proof (cases "?E = []")
    case True
    from l(3) obtain info where info: "map_of ?m l = Some info"
      by (metis map_of_eq_None_iff not_Some_eq)
    then have "(l, info) \<in> set ?m" by (rule map_of_SomeD)
    with km have "wallet info = l" by (auto simp: keys_match_def)
    with executeSessionSell_fallback [OF True l(1,2,4) info, of e] show ?thesis by simp
  next
    case False
    from executeSessionSell_pick [OF this pick]
    obtain p where p: "p \<in> set ?E" "attempts ?s' = attempts s @ [?sell (wallet (snd p))]"
      by blast
    have "fst p \<in> fst ` set ?E" using p(1) by simp
    then have "fst p \<in> fst ` set ?m" "fst p \<notin> set ?u"
      unfolding eligibleEntries_keys by auto
    with em l(1) have "fst p = l" by auto
    with p wk [OF p(1)] show ?thesis by simp
  qed
  have c: "attempts ?s' = attempts s"
    if em: "?others = {}"
    and l: "\<forall>l. lastKey = Some l \<longrightarrow> l \<notin> fst ` set ?m \<or> l \<in> set ?u"
  proof -
    have "fst ` set ?E = {}"
      unfolding eligibleEntries_keys using em l by auto
    then have "?E = []" by simp
    from executeSessionSell_none [OF this l, of e] show ?thesis by simp
  qed
  have d: "\<exists>w \<in> ?others. \<exists>p rest.
                  attempts (fst (executeSessionSells env lastKey s)) =
                    attempts s @ \<lparr>at_direction = Sell, at_wallet = w, at_paused = p\<rparr> # rest"
    if ne: "?others \<noteq> {}"
    using km picks ne by (rule executeSessionSells_first)
  show ?thesis unfolding Let_def using a b c d by blast
qed

subsection \<open>The next sell threshold\<close>

lemma sell_trigger_effect:
  assumes "executeSessionSells env (Some k) s = (s1, r)"
  shows "sell_trigger env k s =
           (if buyCounter s \<ge> buysUntilNextSell s
            then s1\<lparr>buysUntilNextSell := buyCounter s +
                       (if sells_count r > 0
                        then (case env_next env of (rand, u, v) \<Rightarrow> determineNextSellPoint rand u v)
                        else 2 + \<lfloor>env_retry env * 3\<rfloor>)\<rparr>
            else s)"
  using assms executeSessionSells_frame [OF assms]
  by (simp add: sell_trigger_def Let_def sell_frame_def)

lemma sell_trigger_frame:
  "sell_frame s (sell_trigger env k s\<lparr>buysUntilNextSell := buysUntilNextSell s\<rparr>)"
proof -
  obtain s1 r where e: "executeSessionSells env (Some k) s = (s1, r)"
    by (cases "executeSessionSells env (Some k) s")
  from executeSessionSells_frame [OF e] have "sell_frame s s1" by simp
  then show ?thesis
    unfolding sell_trigger_effect [OF e] by (simp add: sell_frame_def)
qed

lemma sell_trigger_fresh:
  assumes "\<forall>i. 0 \<le> se_pick (env_sell env i) \<and> se_pick (env_sell env i) < 1"
      and "keys_match (successfulBuyWallets s)"
  shows "sells_fresh s (sell_trigger env k s)"
proof -
  obtain s1 r where e: "executeSessionSells env (Some k) s = (s1, r)"
    by (cases "executeSessionSells env (Some k) s")
  from executeSessionSells_fresh [OF assms, of "Some k"] e have "sells_fresh s s1" by simp
  then show ?thesis
    unfolding sell_trigger_effect [OF e] by (simp add: sells_fresh_def)
qed

lemma length_js_map_delete:
  "length (js_map_delete k m) \<le> length m"
  "k \<in> fst ` set m \<Longrightarrow> length (js_map_delete k m) < length m"
proof -
  show "length (js_map_delete k m) \<le> length m" by (simp add: js_map_delete_def)
  assume "k \<in> fst ` set m"
  then obtain p where "p \<in> set m" "\<not> fst p \<noteq> k" by auto
  then show "length (js_map_delete k m) < length m"
    unfolding js_map_delete_def by (rule length_filter_less)
qed

lemma executeWalletSell_length:
  assumes "executeWalletSell b info s = (s', r)"
  shows "length (successfulBuyWallets s') \<le> length (successfulBuyWallets s)"
    and "r \<Longrightarrow> wallet info \<in> fst ` set (successfulBuyWallets s) \<Longrightarrow>
           length (successfulBuyWallets s') < length (successfulBuyWallets s)"
  using assms length_js_map_delete [of "wallet info" "successfulBuyWallets s"]
  by (auto simp: executeWalletSell_def Let_def split: if_splits)

lemma executeSessionSell_length:
  assumes km: "keys_match (successfulBuyWallets s)"
      and pick: "0 \<le> se_pick e" "se_pick e < 1"
      and ex: "executeSessionSell e lastKey s = (s', r)"
  shows "length (successfulBuyWallets s') \<le> length (successfulBuyWallets s)
       \<and> (sr_success r \<longrightarrow> length (successfulBuyWallets s') < length (successfulBuyWallets s))"
proof -
  let ?m = "successfulBuyWallets s" and ?u = "usedSellWallets s"
  let ?E = "eligibleEntries ?m ?u lastKey"
  show ?thesis
  proof (cases "?E = []")
    case True
    then show ?thesis
      using ex
      by (auto simp: executeSessionSell_def eligibleWallets_def
               split: option.splits if_splits prod.splits dest: executeWalletSell_length(1))
  next
    case False
    let ?i = "nat \<lfloor>se_pick e * of_nat (length ?E)\<rfloor>"
    have i: "?i < length ?E" using pick False by (intro pick_in_range) simp_all
    then have mem: "?E ! ?i \<in> set ?E" by simp
    then have "?E ! ?i \<in> set ?m" using eligibleEntries_subset by blast
    with km have w: "wallet (snd (?E ! ?i)) \<in> fst ` set ?m"
      by (auto simp: keys_match_def)
    obtain s1 b where ws: "executeWalletSell (se_sent e) (snd (?E ! ?i)) s = (s1, b)"
      by (cases "executeWalletSell (se_sent e) (snd (?E ! ?i)) s")
    have "s' = s1" "sr_success r = b"
      using False i ws ex by (auto simp: executeSessionSell_def eligibleWallets_def Let_def)
    with executeWalletSell_length [OF ws] w show ?thesis by auto
  qed
qed

lemma sell_loop_length:
  assumes "\<forall>i. 0 \<le> se_pick (env i) \<and> se_pick (env i) < 1"
  shows "keys_match (successfulBuyWallets s) \<Longrightarrow> sell_loop env n i (s, c, l) = (s', c', l') \<Longrightarrow>
         length (successfulBuyWallets s') + c' \<le> length (successfulBuyWallets s) + c"
proof (induction n arbitrary: i s c l)
  case 0
  then show ?case by simp
next
  case (Suc n)
  let ?s0 = "keyPresses (se_keys (env i)) s"
  obtain s1 r where e: "executeSessionSell (env i) l ?s0 = (s1, r)"
    by (cases "executeSessionSell (env i) l ?s0")
  have km0: "keys_match (successfulBuyWallets ?s0)" using Suc.prems(1) by simp
  have p: "0 \<le> se_pick (env i)" "se_pick (env i) < 1" using assms by simp_all
  from executeSessionSell_length [OF km0 p e]
  have le: "length (successfulBuyWallets s1) \<le> length (successfulBuyWallets s)"
    and lt: "sr_success r \<Longrightarrow> length (successfulBuyWallets s1) < length (successfulBuyWallets s)"
    by simp_all
  have fr: "sell_frame s s1"
    using sell_frame_trans [OF sell_frame_keyPresses executeSessionSell_frame [OF e]] .
  then have km1: "keys_match (successfulBuyWallets s1)" using Suc.prems(1) by (simp add: sell_frame_def)
  show ?case
  proof (cases "sr_success r")
    case True
    with Suc.prems(2) e have "sell_loop env n (Suc i) (s1, Suc c, sr_wallet r) = (s', c', l')"
      by simp
    from Suc.IH [OF km1 this] lt [OF True] show ?thesis by simp
  next
    case False
    with Suc.prems(2) e le show ?thesis by auto
  qed
qed

lemma executeSessionSells_length:
  assumes "\<forall>i. 0 \<le> se_pick (env_sell env i) \<and> se_pick (env_sell env i) < 1"
      and "keys_match (successfulBuyWallets s)"
      and "executeSessionSells env lastKey s = (s', r)"
  shows "length (successfulBuyWallets s') + sells_count r \<le> length (successfulBuyWallets s)"
proof -
  let ?n = "length (filter (\<lambda>(pubKey, _). pubKey \<notin> set (usedSellWallets s)) (successfulBuyWallets s))"
  show ?thesis
  proof (cases "?n = 0")
    case True
    with assms(3) show ?thesis by (auto simp: executeSessionSells_def)
  next
    case False
    obtain rand u v where d: "env_consecutive env = (rand, u, v)"
      by (cases "env_consecutive env")
    define k where "k = nat (determineConsecutiveSells (int ?n) rand u v)"
    obtain s1 c l where sl: "sell_loop (env_sell env) k 0 (s, 0, lastKey) = (s1, c, l)"
      by (cases "sell_loop (env_sell env) k 0 (s, 0, lastKey)")
    from assms(3) False d sl have r: "s' = s1" "sells_count r = c"
      by (auto simp: executeSessionSells_def Let_def k_def)
    from sell_loop_length [OF assms(1,2) sl] r show ?thesis by simp
  qed
qed

text \<open>
  Claim C7, as the code has it. When the sell sequence is due (\<open>buyCounter\<close> has reached
  \<open>buysUntilNextSell\<close>), \<open>buyCounter\<close> is unchanged by the sequence. If the sequence
  counts at least one successful sell, the next threshold is \<open>buyCounter\<close> plus a fresh
  draw of \<open>determineNextSellPoint\<close>, which lies between 4 and 17. If no sell of the
  sequence was sent (\<open>successfulBuyWallets\<close> has lost no wallet), the sequence counts no
  successful sell and the next threshold is \<open>buyCounter + 2 + floor(3 * r)\<close> for a draw
  \<open>r\<close> in \<open>[0, 1)\<close>, that is 2, 3 or 4 more buys.
\<close>

theorem next_sell_threshold:
  assumes due: "buysUntilNextSell s \<le> buyCounter s"
      and retry: "0 \<le> env_retry env" "env_retry env < 1"
      and picks: "\<forall>i. 0 \<le> se_pick (env_sell env i) \<and> se_pick (env_sell env i) < 1"
      and km: "keys_match (successfulBuyWallets s)"
  shows "let sold = executeSessionSells env (Some pubKey) s;
             s' = sell_trigger env pubKey s;
             freshDraw = (case env_next env of (rand, u, v) \<Rightarrow> determineNextSellPoint rand u v);
             nextAttempt = 2 + \<lfloor>env_retry env * 3\<rfloor>
         in buyCounter s' = buyCounter s
          \<and> (sells_count (snd sold) > 0 \<longrightarrow> buysUntilNextSell s' = buyCounter s + freshDraw)
          \<and> (successfulBuyWallets (fst sold) = successfulBuyWallets s \<longrightarrow>
                sells_count (snd sold) = 0 \<and> buysUntilNextSell s' = buyCounter s + nextAttempt)
          \<and> 4 \<le> freshDraw \<and> freshDraw \<le> 17
          \<and> nextAttempt \<in> {2, 3, 4}"
proof -
  obtain s1 r where e: "executeSessionSells env (Some pubKey) s = (s1, r)"
    by (cases "executeSessionSells env (Some pubKey) s")
  from executeSessionSells_frame [OF e] have b: "buyCounter s1 = buyCounter s"
    by (simp add: sell_frame_def)
  obtain rand u v where d: "env_next env = (rand, u, v)" by (cases "env_next env")
  have z: "sells_count r = 0" if "successfulBuyWallets s1 = successfulBuyWallets s"
    using executeSessionSells_length [OF picks km e] that by simp
  show ?thesis
    using due b z retry_range [OF retry] determineNextSellPoint_range [of rand u v]
    unfolding Let_def sell_trigger_effect [OF e] e by (auto simp: d)
qed

subsection \<open>The pause flag and the sell sequence\<close>

lemma same_ledger_refl [simp]: "same_ledger s s"
  by (simp add: same_ledger_def)

lemma same_ledgerI: "t = s\<lparr>isPaused := p, attempts := a\<rparr> \<Longrightarrow> same_ledger s t"
  by (simp add: same_ledger_def)

lemma same_ledgerE:
  assumes "same_ledger s t"
  obtains p a where "t = s\<lparr>isPaused := p, attempts := a\<rparr>"
  using assms unfolding same_ledger_def by blast

lemma same_ledger_onKeyPress: "same_ledger s t \<Longrightarrow> same_ledger (onKeyPress k s) (onKeyPress k t)"
  by (erule same_ledgerE) (simp add: onKeyPress_def same_ledger_def)

lemma same_ledger_keyPresses: "same_ledger s t \<Longrightarrow> same_ledger (keyPresses ks s) (keyPresses ks t)"
  unfolding keyPresses_def
  by (induction ks arbitrary: s t) (simp_all add: same_ledger_onKeyPress)

lemma same_ledger_executeWalletSell:
  assumes "same_ledger s t"
  shows "same_ledger (fst (executeWalletSell b info s)) (fst (executeWalletSell b info t))
       \<and> snd (executeWalletSell b info s) = snd (executeWalletSell b info t)"
  using assms
  by (elim same_ledgerE) (simp add: executeWalletSell_def Let_def same_ledger_def)

lemma same_ledger_executeSessionSell:
  assumes "same_ledger s t"
  shows "same_ledger (fst (executeSessionSell e lastKey s)) (fst (executeSessionSell e lastKey t))
       \<and> snd (executeSessionSell e lastKey s) = snd (executeSessionSell e lastKey t)"
proof -
  from assms obtain p a where t: "t = s\<lparr>isPaused := p, attempts := a\<rparr>" by (rule same_ledgerE)
  have f: "successfulBuyWallets t = successfulBuyWallets s" "usedSellWallets t = usedSellWallets s"
    by (simp_all add: t)
  note w = same_ledger_executeWalletSell [OF assms]
  show ?thesis
    using assms w
    by (auto simp: executeSessionSell_def f Let_def split_beta split: option.splits)
qed

lemma same_ledger_sell_loop:
  "same_ledger s t \<Longrightarrow>
     same_ledger (fst (sell_loop env n i (s, c, l))) (fst (sell_loop env n i (t, c, l)))
   \<and> snd (sell_loop env n i (s, c, l)) = snd (sell_loop env n i (t, c, l))"
proof (induction n arbitrary: i s t c l)
  case 0
  then show ?case by simp
next
  case (Suc n)
  let ?s0 = "keyPresses (se_keys (env i)) s" and ?t0 = "keyPresses (se_keys (env i)) t"
  have k: "same_ledger ?s0 ?t0" using Suc.prems by (rule same_ledger_keyPresses)
  obtain s1 r where es: "executeSessionSell (env i) l ?s0 = (s1, r)"
    by (cases "executeSessionSell (env i) l ?s0")
  obtain t1 r' where et: "executeSessionSell (env i) l ?t0 = (t1, r')"
    by (cases "executeSessionSell (env i) l ?t0")
  from same_ledger_executeSessionSell [OF k, of "env i" l] es et
  have s1: "same_ledger s1 t1" and r: "r' = r" by simp_all
  show ?case
  proof (cases "sr_success r")
    case True
    with es et r Suc.IH [OF s1] show ?thesis by simp
  next
    case False
    with es et r s1 show ?thesis by simp
  qed
qed

lemma same_ledger_executeSessionSells:
  assumes "same_ledger s t"
  shows "same_ledger (fst (executeSessionSells env lastKey s)) (fst (executeSessionSells env lastKey t))
       \<and> snd (executeSessionSells env lastKey s) = snd (executeSessionSells env lastKey t)"
proof -
  from assms obtain p a where t: "t = s\<lparr>isPaused := p, attempts := a\<rparr>" by (rule same_ledgerE)
  have f: "successfulBuyWallets t = successfulBuyWallets s" "usedSellWallets t = usedSellWallets s"
    by (simp_all add: t)
  have l: "same_ledger (fst (sell_loop (env_sell env) n 0 (s, 0, lastKey))) (fst (sell_loop (env_sell env) n 0 (t, 0, lastKey)))
   \<and> snd (sell_loop (env_sell env) n 0 (s, 0, lastKey)) = snd (sell_loop (env_sell env) n 0 (t, 0, lastKey))" for n
    using assms by (rule same_ledger_sell_loop)
  show ?thesis
    using assms l
    by (auto simp: executeSessionSells_def f Let_def split_beta)
qed

text \<open>
  Claim C5, as the code has it. The pause flag is read once per pass of the main loop,
  before the next wallet is processed: a pass that finds the flag set changes nothing and
  attempts no trade. A sequence of sells never reads the flag: started from two sessions
  that differ only in the flag, \<open>executeSessionSells\<close> attempts the same sells, returns
  the same result and leaves the same ledger.
\<close>

theorem pause_polled_between_iterations:
  "(isPaused s \<longrightarrow> iteration env s = s)
   \<and> same_ledger (fst (executeSessionSells env lastKey (s\<lparr>isPaused := True\<rparr>)))
                  (fst (executeSessionSells env lastKey (s\<lparr>isPaused := False\<rparr>)))
   \<and> snd (executeSessionSells env lastKey (s\<lparr>isPaused := True\<rparr>))
       = snd (executeSessionSells env lastKey (s\<lparr>isPaused := False\<rparr>))"
proof -
  have "same_ledger (s\<lparr>isPaused := True\<rparr>) (s\<lparr>isPaused := False\<rparr>)"
    by (rule same_ledgerI [where p = False and a = "attempts s"]) simp
  from same_ledger_executeSessionSells [OF this, of env lastKey]
  show ?thesis by (simp add: iteration_def)
qed

section \<open>The invariant of the ledger\<close>

lemma process_wallet_buy_step:
  assumes picks: "\<forall>i. 0 \<le> se_pick (env_sell env i) \<and> se_pick (env_sell env i) < 1"
      and km: "keys_match (successfulBuyWallets s)"
  shows "buy_step w s (process_wallet env w s)"
proof -
  let ?buy = "\<lparr>at_direction = Buy, at_wallet = ce_wallet w, at_paused = isPaused s\<rparr>"
  have skip: "buy_step w s (s\<lparr>skippedWallets := n\<rparr>)" for n
    using km by (simp add: buy_step_def)
  have skip2: "buy_step w s (s\<lparr>attempts := attempts s @ [?buy], skippedWallets := n\<rparr>)" for n
    using km by (simp add: buy_step_def)
  have ok: "buy_step w s (buy_succeeded env w b (s\<lparr>attempts := attempts s @ [?buy]\<rparr>))" for b
  proof -
    define info where "info = \<lparr>wallet = ce_wallet w, walletIndex = ce_index w,
                       tokenAccountPubKey = br_tokenAccountPubKey b,
                       balance = br_tokenBalance b\<rparr>"
    define s2 where "s2 = (case ce_rebuy w of
          Some rebuyCount \<Rightarrow> s\<lparr>attempts := attempts s @ [?buy], buyCounter := buyCounter s + 1,
                                rebuyCountMap := (rebuyCountMap s)(ce_wallet w \<mapsto> rebuyCount)\<rparr>
        | None \<Rightarrow> s\<lparr>attempts := attempts s @ [?buy], buyCounter := buyCounter s + 1\<rparr>)"
    define s3 where "s3 = s2\<lparr>successfulBuyWallets := js_map_set (ce_wallet w) info (successfulBuyWallets s2)\<rparr>"
    define s4 where "s4 = sell_trigger env (ce_wallet w) s3"
    have eq: "buy_succeeded env w b (s\<lparr>attempts := attempts s @ [?buy]\<rparr>) = s4"
      by (simp add: buy_succeeded_def Let_def s4_def s3_def s2_def info_def split: option.splits)
    have f: "sell_frame s3 (s4\<lparr>buysUntilNextSell := buysUntilNextSell s3\<rparr>)"
      unfolding s4_def by (rule sell_trigger_frame)
    have km3: "keys_match (successfulBuyWallets s3)"
      using km by (auto simp: s3_def s2_def info_def intro!: keys_match_set split: option.splits)
    have fresh: "sells_fresh s3 s4"
      unfolding s4_def using picks km3 by (rule sell_trigger_fresh)
    have u3: "usedSellWallets s3 = usedSellWallets s"
      by (simp add: s3_def s2_def split: option.splits)
    have a3: "attempts s3 = attempts s @ [?buy]"
      by (simp add: s3_def s2_def split: option.splits)
    have att: "\<exists>new. attempts s4 = attempts s @ new
        \<and> (\<forall>a \<in> set new. if at_direction a = Buy then at_wallet a = ce_wallet w
                           else at_wallet a \<notin> set (usedSellWallets s))"
    proof -
      from fresh obtain new where new: "attempts s4 = attempts s3 @ new"
        "\<forall>a \<in> set new. at_direction a = Sell \<and> at_wallet a \<notin> set (usedSellWallets s3)"
        unfolding sells_fresh_def by blast
      have "attempts s4 = attempts s @ (?buy # new)" using new(1) a3 by simp
      moreover have "\<forall>a \<in> set (?buy # new). if at_direction a = Buy then at_wallet a = ce_wallet w
                           else at_wallet a \<notin> set (usedSellWallets s)"
        using new(2) u3 by auto
      ultimately show ?thesis by blast
    qed
    have "buy_step w s s4"
      using f att km3
      by (auto simp: buy_step_def sell_frame_def s3_def s2_def split: option.splits)
    then show ?thesis using eq by simp
  qed
  show ?thesis
    using skip skip2 ok
    by (auto simp: process_wallet_def Let_def split: option.splits)
qed

lemma refresh_loop_props:
  assumes "distinct ks"
  shows "refresh_loop amount sel counts ks (bl0, cyc0) = (bl, cyc) \<Longrightarrow>
         bl0 \<subseteq> bl \<and> bl \<subseteq> bl0 \<union> set ks
       \<and> (\<exists>new. cyc = cyc0 @ new \<and> distinct (map ce_wallet new)
             \<and> (\<forall>e \<in> set new. ce_wallet e \<in> set ks \<and> ce_wallet e \<notin> bl
                   \<and> ce_wallet e \<in> ce_wallet ` set sel
                   \<and> ce_rebuy e = Some (Suc (case counts (ce_wallet e) of None \<Rightarrow> 0 | Some n \<Rightarrow> n))
                   \<and> (case counts (ce_wallet e) of None \<Rightarrow> 0 | Some n \<Rightarrow> n) < MAX_REBUY_COUNT))
       \<and> (\<forall>k \<in> set ks. k \<in> ce_wallet ` set sel
             \<and> MAX_REBUY_COUNT \<le> (case counts k of None \<Rightarrow> 0 | Some n \<Rightarrow> n) \<longrightarrow> k \<in> bl)"
  using assms
proof (induction ks arbitrary: bl0 cyc0)
  case Nil
  then show ?case by simp
next
  case (Cons k rest)
  let ?cnt = "\<lambda>k. case counts k of None \<Rightarrow> 0 | Some n \<Rightarrow> n"
  let ?P = "\<lambda>bl0 cyc0. bl0 \<subseteq> bl \<and> bl \<subseteq> bl0 \<union> set rest
       \<and> (\<exists>new. cyc = cyc0 @ new \<and> distinct (map ce_wallet new)
             \<and> (\<forall>e \<in> set new. ce_wallet e \<in> set rest \<and> ce_wallet e \<notin> bl
                   \<and> ce_wallet e \<in> ce_wallet ` set sel
                   \<and> ce_rebuy e = Some (Suc (?cnt (ce_wallet e)))
                   \<and> ?cnt (ce_wallet e) < MAX_REBUY_COUNT))
       \<and> (\<forall>k \<in> set rest. k \<in> ce_wallet ` set sel \<and> MAX_REBUY_COUNT \<le> ?cnt k \<longrightarrow> k \<in> bl)"
  have d: "distinct rest" and k: "k \<notin> set rest" using Cons.prems(2) by simp_all
  have IH: "refresh_loop amount sel counts rest (b, c) = (bl, cyc) \<Longrightarrow> ?P b c" for b c
    using Cons.IH [OF _ d] by simp

  have same: ?case
    if r: "refresh_loop amount sel counts rest (bl0, cyc0) = (bl, cyc)"
    and v: "k \<in> ce_wallet ` set sel \<and> MAX_REBUY_COUNT \<le> ?cnt k \<longrightarrow> k \<in> bl0"
  proof -
    from IH [OF r] have p: "?P bl0 cyc0" .
    then show ?thesis using v by (auto 0 3)
  qed
  have black: ?case
    if r: "refresh_loop amount sel counts rest (insert k bl0, cyc0) = (bl, cyc)"
  proof -
    from IH [OF r] have p: "?P (insert k bl0) cyc0" .
    then show ?thesis by (auto 0 3)
  qed
  have push: ?case
    if r: "refresh_loop amount sel counts rest (bl0, cyc0 @ [w\<lparr>ce_rebuy := Some (?cnt k + 1)\<rparr>]) = (bl, cyc)"
    and w: "find (\<lambda>w. ce_wallet w = k) sel = Some w" and nb: "k \<notin> bl0" and c: "?cnt k < MAX_REBUY_COUNT"
    for w
  proof -
    let ?e = "w\<lparr>ce_rebuy := Some (?cnt k + 1)\<rparr>"
    from w have wk: "ce_wallet w = k" "w \<in> set sel"
      by (auto simp: find_Some_iff)
    from IH [OF r] have p: "?P bl0 (cyc0 @ [?e])" .
    then obtain new where new: "cyc = (cyc0 @ [?e]) @ new" "distinct (map ce_wallet new)"
      "\<forall>e \<in> set new. ce_wallet e \<in> set rest \<and> ce_wallet e \<notin> bl
                   \<and> ce_wallet e \<in> ce_wallet ` set sel
                   \<and> ce_rebuy e = Some (Suc (?cnt (ce_wallet e)))
                   \<and> ?cnt (ce_wallet e) < MAX_REBUY_COUNT"
      by blast
    from p have bl: "bl0 \<subseteq> bl" "bl \<subseteq> bl0 \<union> set rest" by blast+
    have kbl: "k \<notin> bl" using bl(2) nb k by blast
    have "cyc = cyc0 @ (?e # new)" using new(1) by simp
    moreover have "distinct (map ce_wallet (?e # new))"
      using new(2,3) k wk(1) by auto
    moreover have "\<forall>e \<in> set (?e # new). ce_wallet e \<in> set (k # rest) \<and> ce_wallet e \<notin> bl
                   \<and> ce_wallet e \<in> ce_wallet ` set sel
                   \<and> ce_rebuy e = Some (Suc (?cnt (ce_wallet e)))
                   \<and> ?cnt (ce_wallet e) < MAX_REBUY_COUNT"
      using new(3) wk kbl c by auto
    moreover have "\<forall>k' \<in> set (k # rest). k' \<in> ce_wallet ` set sel \<and> MAX_REBUY_COUNT \<le> ?cnt k' \<longrightarrow> k' \<in> bl"
      using p c by auto
    ultimately show ?thesis using bl by (intro conjI exI [of _ "?e # new"]) auto
  qed
  show ?case
  proof (cases "k \<in> bl0")
    case True
    with Cons.prems(1) show ?thesis by (intro same) simp_all
  next
    case nb: False
    show ?thesis
    proof (cases "find (\<lambda>w. ce_wallet w = k) sel")
      case None
      then have "k \<notin> ce_wallet ` set sel" by (auto simp: find_None_iff)
      with Cons.prems(1) nb None show ?thesis by (intro same) simp_all
    next
      case (Some w)
      show ?thesis
      proof (cases "MAX_REBUY_COUNT \<le> ?cnt k")
        case True
        with Cons.prems(1) nb Some show ?thesis by (intro black) (simp add: Let_def)
      next
        case c: False
        show ?thesis
        proof (cases "amount k")
          case None
          with Cons.prems(1) nb Some c show ?thesis by (intro same) (simp_all add: Let_def)
        next
          case (Some a)
          show ?thesis
          proof (cases "a < 1 / 100")
            case True
            with Cons.prems(1) nb \<open>find _ sel = Some w\<close> c Some show ?thesis
              by (intro black) (simp add: Let_def)
          next
            case False
            with Cons.prems(1) nb \<open>find _ sel = Some w\<close> c Some show ?thesis
              by (intro push [of w]) (simp_all add: Let_def)
          qed
        qed
      qed
    qed
  qed
qed

lemma refresh_effect:
  assumes inv: "ledger_inv s" and perm: "\<forall>xs. mset (env_shuffle env xs) = mset xs"
  shows "ledger_inv (refresh env s)
       \<and> (\<not> stopped (refresh env s) \<longrightarrow>
            walletCyclePosition (refresh env s) = 0 \<and> walletCycle (refresh env s) \<noteq> [])
       \<and> rebuyCountMap (refresh env s) = rebuyCountMap s
       \<and> usedSellWallets (refresh env s) = usedSellWallets s
       \<and> successfulBuyWallets (refresh env s) = successfulBuyWallets s
       \<and> selectedWallets (refresh env s) = selectedWallets s
       \<and> attempts (refresh env s) = attempts s
       \<and> isPaused (refresh env s) = isPaused s
       \<and> blacklistedWallets s \<subseteq> blacklistedWallets (refresh env s)
       \<and> (\<forall>k \<in> blacklistedWallets (refresh env s). k \<notin> ce_wallet ` set (walletCycle (refresh env s)))
       \<and> (\<forall>k. MAX_REBUY_COUNT \<le> rebuyCount_of s k \<longrightarrow>
              k \<notin> ce_wallet ` set (walletCycle (refresh env s))
            \<and> (k \<in> set (usedSellWallets s) \<and> k \<in> ce_wallet ` set (selectedWallets s)
                 \<longrightarrow> k \<in> blacklistedWallets (refresh env s)))"
proof -
  obtain bl cyc where r: "refresh_loop (env_refresh_amount env) (selectedWallets s) (rebuyCountMap s)
             (usedSellWallets s) (blacklistedWallets s, []) = (bl, cyc)"
    by (cases "refresh_loop (env_refresh_amount env) (selectedWallets s) (rebuyCountMap s)
             (usedSellWallets s) (blacklistedWallets s, [])")
  have d: "distinct (usedSellWallets s)" using inv by (simp add: ledger_inv_def)
  from refresh_loop_props [OF d r]
  have bl: "blacklistedWallets s \<subseteq> bl"
   and dc: "distinct (map ce_wallet cyc)"
   and en: "\<forall>e \<in> set cyc. ce_wallet e \<in> set (usedSellWallets s) \<and> ce_wallet e \<notin> bl
                   \<and> ce_wallet e \<in> ce_wallet ` set (selectedWallets s)
                   \<and> ce_rebuy e = Some (Suc (rebuyCount_of s (ce_wallet e)))
                   \<and> rebuyCount_of s (ce_wallet e) < MAX_REBUY_COUNT"
   and mx: "\<forall>k \<in> set (usedSellWallets s). k \<in> ce_wallet ` set (selectedWallets s)
             \<and> MAX_REBUY_COUNT \<le> rebuyCount_of s k \<longrightarrow> k \<in> bl"
    by (auto simp: rebuyCount_of_def)
  define s' where "s' = refresh env s"
  have s': "s' = (if length cyc = 0
          then s\<lparr>blacklistedWallets := bl, walletCycle := cyc, stopped := True\<rparr>
          else s\<lparr>blacklistedWallets := bl, walletCycle := env_shuffle env cyc,
                 walletCyclePosition := 0\<rparr>)"
    using r by (simp add: s'_def refresh_def)
  have set_sh: "set (env_shuffle env cyc) = set cyc"
    using perm by (metis set_mset_mset)
  have dist_sh: "distinct (map ce_wallet (env_shuffle env cyc))"
  proof -
    have "mset (map ce_wallet (env_shuffle env cyc)) = mset (map ce_wallet cyc)"
      using perm by (metis mset_map)
    then show ?thesis using dc by (metis mset_eq_imp_distinct_iff)
  qed
  have ne_sh: "env_shuffle env cyc \<noteq> []" if "cyc \<noteq> []"
    using that set_sh by (metis set_empty)
  have cyc': "set (walletCycle s') = set cyc" "distinct (map ce_wallet (walletCycle s'))"
    using set_sh dist_sh dc by (auto simp: s')
  have flds: "rebuyCountMap s' = rebuyCountMap s" "usedSellWallets s' = usedSellWallets s"
    "successfulBuyWallets s' = successfulBuyWallets s" "selectedWallets s' = selectedWallets s"
    "attempts s' = attempts s" "isPaused s' = isPaused s" "blacklistedWallets s' = bl"
    by (simp_all add: s')
  have cnt: "rebuyCount_of s' k = rebuyCount_of s k" for k
    by (simp add: rebuyCount_of_def flds)
  have pend: "set (pending s') \<subseteq> set cyc"
    using cyc'(1) by (auto simp: pending_def dest: in_set_dropD)
  have "ledger_inv s'"
    unfolding ledger_inv_def
    using inv en pend cyc'(2) by (auto simp: flds cnt ledger_inv_def)
  moreover have "\<not> stopped s' \<longrightarrow> walletCyclePosition s' = 0 \<and> walletCycle s' \<noteq> []"
    using inv ne_sh by (auto simp: s')
  moreover have "\<forall>k \<in> blacklistedWallets s'. k \<notin> ce_wallet ` set (walletCycle s')"
    using en cyc'(1) by (auto simp: flds)
  moreover have "\<forall>k. MAX_REBUY_COUNT \<le> rebuyCount_of s k \<longrightarrow>
              k \<notin> ce_wallet ` set (walletCycle s')
            \<and> (k \<in> set (usedSellWallets s) \<and> k \<in> ce_wallet ` set (selectedWallets s)
                 \<longrightarrow> k \<in> blacklistedWallets s')"
    using en mx cyc'(1) by (auto simp: flds)
  ultimately show ?thesis
    using bl flds unfolding s'_def by simp
qed

lemma MAX_pos: "0 < MAX_REBUY_COUNT"
  by (simp add: MAX_REBUY_COUNT_def)

lemma buy_step_inv:
  assumes inv: "ledger_inv s1"
      and pos: "walletCyclePosition s1 < length (walletCycle s1)"
      and w: "w = walletCycle s1 ! walletCyclePosition s1"
      and s3: "walletCycle s3 = walletCycle s1" "walletCyclePosition s3 = Suc (walletCyclePosition s1)"
              "rebuyCountMap s3 = rebuyCountMap s1" "blacklistedWallets s3 = blacklistedWallets s1"
              "usedSellWallets s3 = usedSellWallets s1" "selectedWallets s3 = selectedWallets s1"
      and step: "buy_step w s3 s4"
  shows "ledger_inv s4 \<and> (\<forall>k. rebuyCount_of s1 k \<le> rebuyCount_of s4 k)
       \<and> ce_wallet w \<notin> blacklistedWallets s1 \<and> rebuyCount_of s1 (ce_wallet w) < MAX_REBUY_COUNT"
proof -
  let ?p = "walletCyclePosition s1" and ?c = "walletCycle s1"
  have wc: "w \<in> set ?c" using pos w by simp
  have pend1: "pending s1 = w # drop (Suc ?p) ?c"
    using pos w by (simp add: pending_def Cons_nth_drop_Suc)
  from step have f4: "walletCyclePosition s4 = Suc ?p" "walletCycle s4 = ?c"
      "selectedWallets s4 = selectedWallets s1" "blacklistedWallets s4 = blacklistedWallets s1"
      "set (usedSellWallets s1) \<subseteq> set (usedSellWallets s4)"
      "distinct (usedSellWallets s1) \<longrightarrow> distinct (usedSellWallets s4)"
      "keys_match (successfulBuyWallets s4)"
    and m4: "rebuyCountMap s4 = rebuyCountMap s1
        \<or> (\<exists>n. ce_rebuy w = Some n \<and> rebuyCountMap s4 = (rebuyCountMap s1)(ce_wallet w \<mapsto> n))"
    by (simp_all add: buy_step_def s3)
  have pend4: "pending s4 = drop (Suc ?p) ?c" by (simp add: pending_def f4)
  from inv have d1: "distinct (usedSellWallets s1)"
    and dom1: "\<forall>k \<in> dom (rebuyCountMap s1).
         k \<in> set (usedSellWallets s1) \<and> k \<in> ce_wallet ` set (selectedWallets s1)"
    and le1: "\<forall>k. rebuyCount_of s1 k \<le> MAX_REBUY_COUNT"
    by (simp_all add: ledger_inv_def)
  from inv consider
      (first) "\<forall>e \<in> set ?c. ce_rebuy e = None" "rebuyCountMap s1 = Map.empty" "blacklistedWallets s1 = {}"
    | (rebuy) "distinct (map ce_wallet ?c)"
        "\<forall>e \<in> set (pending s1).
                ce_rebuy e = Some (Suc (rebuyCount_of s1 (ce_wallet e)))
              \<and> rebuyCount_of s1 (ce_wallet e) < MAX_REBUY_COUNT
              \<and> ce_wallet e \<notin> blacklistedWallets s1
              \<and> ce_wallet e \<in> set (usedSellWallets s1)
              \<and> ce_wallet e \<in> ce_wallet ` set (selectedWallets s1)"
    unfolding ledger_inv_def by blast
  then show ?thesis
  proof cases
    case first
    from first(1) wc have "ce_rebuy w = None" by simp
    with m4 have m: "rebuyCountMap s4 = rebuyCountMap s1" by auto
    then have cnt: "rebuyCount_of s4 k = rebuyCount_of s1 k" for k
      by (simp add: rebuyCount_of_def)
    have "ledger_inv s4"
      unfolding ledger_inv_def using first d1 f4 by (simp add: m cnt rebuyCount_of_def)
    moreover have "rebuyCount_of s1 (ce_wallet w) < MAX_REBUY_COUNT"
      using first(2) MAX_pos by (simp add: rebuyCount_of_def)
    ultimately show ?thesis using first(3) cnt by simp
  next
    case rebuy
    from rebuy(2) pend1 have pw: "ce_rebuy w = Some (Suc (rebuyCount_of s1 (ce_wallet w)))"
        "rebuyCount_of s1 (ce_wallet w) < MAX_REBUY_COUNT"
        "ce_wallet w \<notin> blacklistedWallets s1"
        "ce_wallet w \<in> set (usedSellWallets s1)"
        "ce_wallet w \<in> ce_wallet ` set (selectedWallets s1)"
      by simp_all
    have "?c = take ?p ?c @ w # drop (Suc ?p) ?c"
      using pos w by (simp add: id_take_nth_drop)
    then have "distinct (map ce_wallet (take ?p ?c @ w # drop (Suc ?p) ?c))"
      using rebuy(1) by simp
    then have "ce_wallet w \<notin> ce_wallet ` set (drop (Suc ?p) ?c)"
      by simp
    then have later: "ce_wallet e \<noteq> ce_wallet w" if "e \<in> set (drop (Suc ?p) ?c)" for e
      using that by (metis imageI)
    have cnt: "rebuyCount_of s4 k = rebuyCount_of s1 k" if "k \<noteq> ce_wallet w" for k
      using m4 that by (auto simp: rebuyCount_of_def)
    have cntw: "rebuyCount_of s4 (ce_wallet w) = rebuyCount_of s1 (ce_wallet w)
              \<or> rebuyCount_of s4 (ce_wallet w) = Suc (rebuyCount_of s1 (ce_wallet w))"
      using m4 pw(1) by (auto simp: rebuyCount_of_def)
    have mono: "rebuyCount_of s1 k \<le> rebuyCount_of s4 k" for k
      using cnt [of k] cntw by (cases "k = ce_wallet w") auto
    have le4: "rebuyCount_of s4 k \<le> MAX_REBUY_COUNT" for k
      using cnt [of k] cntw pw(2) le1 by (cases "k = ce_wallet w") auto
    have "dom (rebuyCountMap s4) \<subseteq> insert (ce_wallet w) (dom (rebuyCountMap s1))"
      using m4 by auto
    then have dom4: "\<forall>k \<in> dom (rebuyCountMap s4).
         k \<in> set (usedSellWallets s4) \<and> k \<in> ce_wallet ` set (selectedWallets s4)"
    proof (intro ballI)
      fix k assume "dom (rebuyCountMap s4) \<subseteq> insert (ce_wallet w) (dom (rebuyCountMap s1))"
        and "k \<in> dom (rebuyCountMap s4)"
      then have "k = ce_wallet w \<or> k \<in> dom (rebuyCountMap s1)" by blast
      then have "k \<in> set (usedSellWallets s1) \<and> k \<in> ce_wallet ` set (selectedWallets s1)"
        using dom1 pw(4,5) by blast
      then show "k \<in> set (usedSellWallets s4) \<and> k \<in> ce_wallet ` set (selectedWallets s4)"
        using f4(3,5) by auto
    qed
    have pe4: "\<forall>e \<in> set (pending s4).
                ce_rebuy e = Some (Suc (rebuyCount_of s4 (ce_wallet e)))
              \<and> rebuyCount_of s4 (ce_wallet e) < MAX_REBUY_COUNT
              \<and> ce_wallet e \<notin> blacklistedWallets s4
              \<and> ce_wallet e \<in> set (usedSellWallets s4)
              \<and> ce_wallet e \<in> ce_wallet ` set (selectedWallets s4)"
    proof
      fix e assume e: "e \<in> set (pending s4)"
      then have e1: "e \<in> set (pending s1)" and ne: "ce_wallet e \<noteq> ce_wallet w"
        using pend1 pend4 later by auto
      from rebuy(2) e1 have "ce_rebuy e = Some (Suc (rebuyCount_of s1 (ce_wallet e)))
              \<and> rebuyCount_of s1 (ce_wallet e) < MAX_REBUY_COUNT
              \<and> ce_wallet e \<notin> blacklistedWallets s1
              \<and> ce_wallet e \<in> set (usedSellWallets s1)
              \<and> ce_wallet e \<in> ce_wallet ` set (selectedWallets s1)"
        by (rule bspec)
      then show "ce_rebuy e = Some (Suc (rebuyCount_of s4 (ce_wallet e)))
              \<and> rebuyCount_of s4 (ce_wallet e) < MAX_REBUY_COUNT
              \<and> ce_wallet e \<notin> blacklistedWallets s4
              \<and> ce_wallet e \<in> set (usedSellWallets s4)
              \<and> ce_wallet e \<in> ce_wallet ` set (selectedWallets s4)"
        unfolding cnt [OF ne] f4(3,4) using f4(5) by blast
    qed
    have "distinct (usedSellWallets s4)" using f4(6) d1 by simp
    moreover have "distinct (map ce_wallet (walletCycle s4))" using rebuy(1) f4(2) by simp
    ultimately have "ledger_inv s4"
      unfolding ledger_inv_def using f4(7) dom4 le4 pe4 by blast
    then show ?thesis using mono pw(2,3) by simp
  qed
qed

lemma onKeyPress_fields: "onKeyPress k s = s\<lparr>isPaused := isPaused (onKeyPress k s)\<rparr>"
  by (simp add: onKeyPress_def)

lemma fold_onKeyPress: "\<exists>b. fold onKeyPress ks s = s\<lparr>isPaused := b\<rparr>"
proof (induction ks arbitrary: s)
  case Nil
  have "s = s\<lparr>isPaused := isPaused s\<rparr>" by simp
  then show ?case by (metis fold_simps(1))
next
  case (Cons k ks)
  from Cons [of "onKeyPress k s"] obtain b
    where "fold onKeyPress ks (onKeyPress k s) = (onKeyPress k s)\<lparr>isPaused := b\<rparr>" by blast
  then have "fold onKeyPress (k # ks) s = s\<lparr>isPaused := b\<rparr>"
    by (subst (asm) (2) onKeyPress_fields) simp
  then show ?case by blast
qed

lemma keyPresses_fields:
  "keyPresses ks s = s\<lparr>isPaused := isPaused (keyPresses ks s)\<rparr>"
proof -
  obtain b where b: "keyPresses ks s = s\<lparr>isPaused := b\<rparr>"
    unfolding keyPresses_def using fold_onKeyPress by blast
  then have "isPaused (keyPresses ks s) = b" by simp
  with b show ?thesis by simp
qed

lemma ledger_inv_isPaused [simp]: "ledger_inv (s\<lparr>isPaused := b\<rparr>) = ledger_inv s"
  by (simp add: ledger_inv_def pending_def rebuyCount_of_def)

lemma rebuyCount_of_isPaused [simp]: "rebuyCount_of (s\<lparr>isPaused := b\<rparr>) = rebuyCount_of s"
  by (simp add: rebuyCount_of_def fun_eq_iff)

lemma iteration_inv:
  assumes inv: "ledger_inv s" and env: "good_env env"
  shows "ledger_inv (iteration env s)
       \<and> (\<forall>k. rebuyCount_of s k \<le> rebuyCount_of (iteration env s) k)
       \<and> blacklistedWallets s \<subseteq> blacklistedWallets (iteration env s)
       \<and> set (usedSellWallets s) \<subseteq> set (usedSellWallets (iteration env s))
       \<and> selectedWallets (iteration env s) = selectedWallets s
       \<and> (\<exists>new. attempts (iteration env s) = attempts s @ new
            \<and> (\<forall>a \<in> set new.
                  if at_direction a = Buy
                  then at_wallet a \<notin> blacklistedWallets s
                     \<and> rebuyCount_of s (at_wallet a) < MAX_REBUY_COUNT
                  else at_wallet a \<notin> set (usedSellWallets s)))"
proof (cases "stopped s \<or> isPaused s")
  case True
  then have "iteration env s = s" by (auto simp: iteration_def)
  with inv show ?thesis by simp
next
  case False
  define s1 where "s1 = (if walletCyclePosition s \<ge> length (walletCycle s) then refresh env s else s)"
  from env have perm: "\<forall>xs. mset (env_shuffle env xs) = mset xs"
    and picks: "\<forall>i. 0 \<le> se_pick (env_sell env i) \<and> se_pick (env_sell env i) < 1"
    by (simp_all add: good_env_def)
  note re = refresh_effect [OF inv perm]
  have inv1: "ledger_inv s1" using re inv by (simp add: s1_def)
  have f1: "rebuyCountMap s1 = rebuyCountMap s" "usedSellWallets s1 = usedSellWallets s"
    "successfulBuyWallets s1 = successfulBuyWallets s" "selectedWallets s1 = selectedWallets s"
    "attempts s1 = attempts s" "blacklistedWallets s \<subseteq> blacklistedWallets s1"
    using re by (simp_all add: s1_def)
  have cnt1: "rebuyCount_of s1 k = rebuyCount_of s k" for k
    by (simp add: rebuyCount_of_def f1)
  show ?thesis
  proof (cases "stopped s1")
    case True
    with False have "iteration env s = s1" by (simp add: iteration_def s1_def Let_def)
    with inv1 f1 cnt1 show ?thesis by simp
  next
    case ns: False
    define w where "w = walletCycle s1 ! walletCyclePosition s1"
    define s3 where "s3 = keyPresses (env_keys env) (s1\<lparr>walletCyclePosition := walletCyclePosition s1 + 1\<rparr>)"
    define s4 where "s4 = process_wallet env w s3"
    have it: "iteration env s = s4"
      using False ns by (simp add: iteration_def s1_def [symmetric] Let_def s4_def s3_def w_def)
    have pos: "walletCyclePosition s1 < length (walletCycle s1)"
      using re ns by (auto simp: s1_def)
    have s3': "s3 = s1\<lparr>walletCyclePosition := walletCyclePosition s1 + 1, isPaused := isPaused s3\<rparr>"
      unfolding s3_def by (subst keyPresses_fields) simp
    have f3: "walletCycle s3 = walletCycle s1" "walletCyclePosition s3 = Suc (walletCyclePosition s1)"
              "rebuyCountMap s3 = rebuyCountMap s1" "blacklistedWallets s3 = blacklistedWallets s1"
              "usedSellWallets s3 = usedSellWallets s1" "selectedWallets s3 = selectedWallets s1"
              "successfulBuyWallets s3 = successfulBuyWallets s1" "attempts s3 = attempts s1"
      by (subst s3', simp)+
    have km3: "keys_match (successfulBuyWallets s3)"
      using inv1 by (simp add: f3 ledger_inv_def)
    have step: "buy_step w s3 s4"
      unfolding s4_def using picks km3 by (rule process_wallet_buy_step)
    from buy_step_inv [OF inv1 pos w_def f3(1-6) step]
    have inv4: "ledger_inv s4" and mono: "\<And>k. rebuyCount_of s1 k \<le> rebuyCount_of s4 k"
      and wb: "ce_wallet w \<notin> blacklistedWallets s1" "rebuyCount_of s1 (ce_wallet w) < MAX_REBUY_COUNT"
      by simp_all
    from step have f4: "blacklistedWallets s4 = blacklistedWallets s1"
      "set (usedSellWallets s1) \<subseteq> set (usedSellWallets s4)" "selectedWallets s4 = selectedWallets s1"
      by (simp_all add: buy_step_def f3)
    from step obtain new where new: "attempts s4 = attempts s3 @ new"
      "\<forall>a \<in> set new. if at_direction a = Buy then at_wallet a = ce_wallet w
                           else at_wallet a \<notin> set (usedSellWallets s3)"
      unfolding buy_step_def by blast
    have "attempts s4 = attempts s @ new" using new(1) f3 f1 by simp
    moreover have "\<forall>a \<in> set new.
                  if at_direction a = Buy
                  then at_wallet a \<notin> blacklistedWallets s
                     \<and> rebuyCount_of s (at_wallet a) < MAX_REBUY_COUNT
                  else at_wallet a \<notin> set (usedSellWallets s)"
    proof
      fix a assume "a \<in> set new"
      with new(2) have "if at_direction a = Buy then at_wallet a = ce_wallet w
                           else at_wallet a \<notin> set (usedSellWallets s3)" by (rule bspec)
      then show "if at_direction a = Buy
                  then at_wallet a \<notin> blacklistedWallets s
                     \<and> rebuyCount_of s (at_wallet a) < MAX_REBUY_COUNT
                  else at_wallet a \<notin> set (usedSellWallets s)"
        using wb f1(6) cnt1 f3(5) f1(2) by (auto split: if_splits)
    qed
    ultimately have att: "\<exists>new. attempts s4 = attempts s @ new
            \<and> (\<forall>a \<in> set new.
                  if at_direction a = Buy
                  then at_wallet a \<notin> blacklistedWallets s
                     \<and> rebuyCount_of s (at_wallet a) < MAX_REBUY_COUNT
                  else at_wallet a \<notin> set (usedSellWallets s))" by blast
    have "\<forall>k. rebuyCount_of s k \<le> rebuyCount_of s4 k" using mono cnt1 by simp
    moreover have "blacklistedWallets s \<subseteq> blacklistedWallets s4" using f4(1) f1(6) by simp
    moreover have "set (usedSellWallets s) \<subseteq> set (usedSellWallets s4)" using f4(2) f1(2) by simp
    moreover have "selectedWallets s4 = selectedWallets s" using f4(3) f1(4) by simp
    ultimately show ?thesis unfolding it using inv4 att by blast
  qed
qed

lemma step_inv:
  assumes inv: "ledger_inv s" and ev: "good_event ev"
  shows "ledger_inv (step ev s)
       \<and> (\<forall>k. rebuyCount_of s k \<le> rebuyCount_of (step ev s) k)
       \<and> blacklistedWallets s \<subseteq> blacklistedWallets (step ev s)
       \<and> set (usedSellWallets s) \<subseteq> set (usedSellWallets (step ev s))
       \<and> selectedWallets (step ev s) = selectedWallets s
       \<and> (\<exists>new. attempts (step ev s) = attempts s @ new
            \<and> (\<forall>a \<in> set new.
                  if at_direction a = Buy
                  then at_wallet a \<notin> blacklistedWallets s
                     \<and> rebuyCount_of s (at_wallet a) < MAX_REBUY_COUNT
                  else at_wallet a \<notin> set (usedSellWallets s)))"
proof (cases ev)
  case (KeyPress k)
  have "step ev s = s\<lparr>isPaused := isPaused (onKeyPress k s)\<rparr>"
    unfolding KeyPress using onKeyPress_fields [of k s] by simp
  with inv show ?thesis by simp
next
  case (Iteration env)
  with ev have "good_env env" by simp
  from iteration_inv [OF inv this] show ?thesis unfolding Iteration by simp
qed

lemma init_inv: "ledger_inv (init paused selected draws)"
  by (auto simp: ledger_inv_def init_def Let_def keys_match_def rebuyCount_of_def)

lemma run_Nil [simp]: "run [] s = s"
  by (simp add: run_def)

lemma run_Cons [simp]: "run (e # es) s = run es (step e s)"
  by (simp add: run_def)

lemma run_inv:
  assumes "ledger_inv s" "\<forall>e \<in> set es. good_event e"
  shows "ledger_inv (run es s)
       \<and> (\<forall>k. rebuyCount_of s k \<le> rebuyCount_of (run es s) k)
       \<and> blacklistedWallets s \<subseteq> blacklistedWallets (run es s)
       \<and> set (usedSellWallets s) \<subseteq> set (usedSellWallets (run es s))
       \<and> selectedWallets (run es s) = selectedWallets s"
  using assms
proof (induction es arbitrary: s)
  case Nil
  then show ?case by simp
next
  case (Cons e es)
  from Cons.prems have g: "good_event e" "\<forall>e \<in> set es. good_event e" by simp_all
  note st = step_inv [OF Cons.prems(1) g(1)]
  from st have i1: "ledger_inv (step e s)" by blast
  note ih = Cons.IH [OF i1 g(2)]
  have "\<forall>k. rebuyCount_of s k \<le> rebuyCount_of (run es (step e s)) k"
  proof
    fix k
    from st have "rebuyCount_of s k \<le> rebuyCount_of (step e s) k" by blast
    moreover from ih have "rebuyCount_of (step e s) k \<le> rebuyCount_of (run es (step e s)) k" by blast
    ultimately show "rebuyCount_of s k \<le> rebuyCount_of (run es (step e s)) k" by (rule order_trans)
  qed
  moreover have "blacklistedWallets s \<subseteq> blacklistedWallets (run es (step e s))"
    using st ih by blast
  moreover have "set (usedSellWallets s) \<subseteq> set (usedSellWallets (run es (step e s)))"
    using st ih by blast
  moreover have "selectedWallets (run es (step e s)) = selectedWallets s"
    using st ih by simp
  ultimately show ?case using ih by simp
qed

lemma run_attempts:
  assumes "ledger_inv s" "\<forall>e \<in> set es. good_event e"
  shows "\<exists>new. attempts (run es s) = attempts s @ new
            \<and> (\<forall>a \<in> set new.
                  if at_direction a = Buy
                  then at_wallet a \<notin> blacklistedWallets s
                     \<and> rebuyCount_of s (at_wallet a) < MAX_REBUY_COUNT
                  else at_wallet a \<notin> set (usedSellWallets s))"
  using assms
proof (induction es arbitrary: s)
  case Nil
  then show ?case by simp
next
  case (Cons e es)
  let ?ok = "\<lambda>s a. if at_direction a = Buy
                  then at_wallet a \<notin> blacklistedWallets s
                     \<and> rebuyCount_of s (at_wallet a) < MAX_REBUY_COUNT
                  else at_wallet a \<notin> set (usedSellWallets s)"
  from Cons.prems have g: "good_event e" "\<forall>e \<in> set es. good_event e" by simp_all
  note st = step_inv [OF Cons.prems(1) g(1)]
  from st have i1: "ledger_inv (step e s)"
    and mono: "\<And>k. rebuyCount_of s k \<le> rebuyCount_of (step e s) k"
    and bl: "blacklistedWallets s \<subseteq> blacklistedWallets (step e s)"
    and us: "set (usedSellWallets s) \<subseteq> set (usedSellWallets (step e s))"
    by blast+
  from st obtain n1 where n1: "attempts (step e s) = attempts s @ n1" "\<forall>a \<in> set n1. ?ok s a"
    by blast
  from Cons.IH [OF i1 g(2)] obtain n2
    where n2: "attempts (run es (step e s)) = attempts (step e s) @ n2"
              "\<forall>a \<in> set n2. ?ok (step e s) a"
    by blast
  have "?ok s a" if "a \<in> set n2" for a
  proof -
    from n2(2) that have a: "?ok (step e s) a" by (rule bspec)
    show ?thesis
    proof (cases "at_direction a = Buy")
      case True
      with a have "at_wallet a \<notin> blacklistedWallets (step e s)"
        "rebuyCount_of (step e s) (at_wallet a) < MAX_REBUY_COUNT" by simp_all
      with bl mono [of "at_wallet a"] True show ?thesis by auto
    next
      case False
      with a us show ?thesis by auto
    qed
  qed
  with n1(2) have "\<forall>a \<in> set (n1 @ n2). ?ok s a" by auto
  moreover have "attempts (run (e # es) s) = attempts s @ (n1 @ n2)"
    using n1(1) n2(1) by simp
  ultimately show ?case by blast
qed

lemma reachable_inv:
  assumes "\<forall>e \<in> set es. good_event e"
  shows "ledger_inv (run es (init paused selected draws))"
  using run_inv [OF init_inv assms] by blast

text \<open>
  Claim C2, as the code has it. In every session reached from the start of the loop, a
  wallet that is in \<open>usedSellWallets\<close> stays there in every later session, is not among
  the entries that \<open>executeSessionSell\<close> finds eligible, whatever the last buyer, and no
  later sell is attempted from it. Nothing removes a wallet from \<open>usedSellWallets\<close>: a
  rebuy puts the wallet back into \<open>successfulBuyWallets\<close> and does not make it eligible
  for another sell.
\<close>

theorem used_wallet_stays_excluded:
  assumes "\<forall>e \<in> set es0. good_event e" "\<forall>e \<in> set es. good_event e"
      and "k \<in> set (usedSellWallets (run es0 (init paused selected draws)))"
  shows "let s = run es0 (init paused selected draws); s' = run es s
         in k \<in> set (usedSellWallets s')
          \<and> k \<notin> fst ` set (eligibleEntries (successfulBuyWallets s') (usedSellWallets s') lastKey)
          \<and> (\<forall>a \<in> set (drop (length (attempts s)) (attempts s')).
                at_direction a = Sell \<longrightarrow> at_wallet a \<noteq> k)"
proof -
  define s where "s = run es0 (init paused selected draws)"
  define s' where "s' = run es s"
  have inv: "ledger_inv s" unfolding s_def using assms(1) by (rule reachable_inv)
  from run_inv [OF inv assms(2)] have "set (usedSellWallets s) \<subseteq> set (usedSellWallets s')"
    unfolding s'_def by blast
  with assms(3) have u: "k \<in> set (usedSellWallets s')" unfolding s_def by blast
  then have e: "k \<notin> fst ` set (eligibleEntries (successfulBuyWallets s') (usedSellWallets s') lastKey)"
    unfolding eligibleEntries_keys by simp
  from run_attempts [OF inv assms(2)] obtain new where new: "attempts s' = attempts s @ new"
    "\<forall>a \<in> set new. if at_direction a = Buy
                  then at_wallet a \<notin> blacklistedWallets s
                     \<and> rebuyCount_of s (at_wallet a) < MAX_REBUY_COUNT
                  else at_wallet a \<notin> set (usedSellWallets s)"
    unfolding s'_def by blast
  have "at_wallet a \<noteq> k" if "a \<in> set new" "at_direction a = Sell" for a
    using new(2) that assms(3) unfolding s_def by auto
  then have "\<forall>a \<in> set (drop (length (attempts s)) (attempts s')).
                at_direction a = Sell \<longrightarrow> at_wallet a \<noteq> k"
    using new(1) by simp
  with u e show ?thesis unfolding Let_def s_def [symmetric] s'_def [symmetric] by blast
qed

text \<open>
  Claim C4, as the code has it. In every session reached from the start of the loop and
  every later session: the rebuy count of a wallet never decreases and never exceeds
  \<open>MAX_REBUY_COUNT\<close>; \<open>blacklistedWallets\<close> only grows; a wallet whose count equals the
  ceiling, or that is blacklisted, is not among the pending entries of the wallet cycle,
  is not put into the cycle by a refresh, and no later buy is attempted from it; and a
  wallet whose count equals the ceiling is in \<open>blacklistedWallets\<close> after the next
  refresh of the cycle. The blacklisting happens at that refresh, not at the buy that
  brings the count to the ceiling.
\<close>

theorem rebuy_count_ceiling:
  assumes "\<forall>e \<in> set es0. good_event e" "\<forall>e \<in> set es. good_event e"
      and "\<forall>xs. mset (env_shuffle env xs) = mset xs"
  shows "let s = run es0 (init paused selected draws); s' = run es s
         in rebuyCount_of s k \<le> rebuyCount_of s' k
          \<and> rebuyCount_of s k \<le> MAX_REBUY_COUNT
          \<and> blacklistedWallets s \<subseteq> blacklistedWallets s'
          \<and> (rebuyCount_of s k = MAX_REBUY_COUNT \<or> k \<in> blacklistedWallets s \<longrightarrow>
               k \<notin> ce_wallet ` set (pending s)
             \<and> k \<notin> ce_wallet ` set (walletCycle (refresh env s))
             \<and> (\<forall>a \<in> set (drop (length (attempts s)) (attempts s')).
                   at_direction a = Buy \<longrightarrow> at_wallet a \<noteq> k))
          \<and> (rebuyCount_of s k = MAX_REBUY_COUNT \<longrightarrow> k \<in> blacklistedWallets (refresh env s))"
proof -
  define s where "s = run es0 (init paused selected draws)"
  define s' where "s' = run es s"
  have inv: "ledger_inv s" unfolding s_def using assms(1) by (rule reachable_inv)
  note ri = run_inv [OF inv assms(2), folded s'_def]
  from ri have a: "rebuyCount_of s k \<le> rebuyCount_of s' k" by blast
  from inv have b: "rebuyCount_of s k \<le> MAX_REBUY_COUNT" by (simp add: ledger_inv_def)
  from ri have c: "blacklistedWallets s \<subseteq> blacklistedWallets s'" by blast
  note re = refresh_effect [OF inv assms(3)]
  have d1: "k \<notin> ce_wallet ` set (pending s)"
    if "rebuyCount_of s k = MAX_REBUY_COUNT \<or> k \<in> blacklistedWallets s"
  proof -
    from inv consider
      (first) "rebuyCountMap s = Map.empty" "blacklistedWallets s = {}"
    | (rebuy) "\<forall>e \<in> set (pending s).
                rebuyCount_of s (ce_wallet e) < MAX_REBUY_COUNT
              \<and> ce_wallet e \<notin> blacklistedWallets s"
      unfolding ledger_inv_def by blast
    then show ?thesis
    proof cases
      case first
      then have "rebuyCount_of s k = 0" by (simp add: rebuyCount_of_def)
      with that first(2) MAX_pos show ?thesis by simp
    next
      case rebuy
      with that show ?thesis by auto
    qed
  qed
  from re have r1: "\<forall>k \<in> blacklistedWallets (refresh env s). k \<notin> ce_wallet ` set (walletCycle (refresh env s))"
    and r2: "\<forall>k. MAX_REBUY_COUNT \<le> rebuyCount_of s k \<longrightarrow>
              k \<notin> ce_wallet ` set (walletCycle (refresh env s))
            \<and> (k \<in> set (usedSellWallets s) \<and> k \<in> ce_wallet ` set (selectedWallets s)
                 \<longrightarrow> k \<in> blacklistedWallets (refresh env s))"
    and r3: "blacklistedWallets s \<subseteq> blacklistedWallets (refresh env s)"
    by blast+
  have d2: "k \<notin> ce_wallet ` set (walletCycle (refresh env s))"
    if "rebuyCount_of s k = MAX_REBUY_COUNT \<or> k \<in> blacklistedWallets s"
  proof (cases "k \<in> blacklistedWallets s")
    case True
    with r3 have "k \<in> blacklistedWallets (refresh env s)" by blast
    with r1 show ?thesis by blast
  next
    case False
    with that have "MAX_REBUY_COUNT \<le> rebuyCount_of s k" by simp
    with r2 show ?thesis by blast
  qed
  from run_attempts [OF inv assms(2)] obtain new where new: "attempts s' = attempts s @ new"
    "\<forall>a \<in> set new. if at_direction a = Buy
                  then at_wallet a \<notin> blacklistedWallets s
                     \<and> rebuyCount_of s (at_wallet a) < MAX_REBUY_COUNT
                  else at_wallet a \<notin> set (usedSellWallets s)"
    unfolding s'_def by blast
  have d3: "\<forall>a \<in> set (drop (length (attempts s)) (attempts s')).
                   at_direction a = Buy \<longrightarrow> at_wallet a \<noteq> k"
    if "rebuyCount_of s k = MAX_REBUY_COUNT \<or> k \<in> blacklistedWallets s"
    using that new by auto
  have e: "k \<in> blacklistedWallets (refresh env s)" if m: "rebuyCount_of s k = MAX_REBUY_COUNT"
  proof -
    from m MAX_pos have "k \<in> dom (rebuyCountMap s)"
      by (auto simp: rebuyCount_of_def split: option.splits)
    with inv have "k \<in> set (usedSellWallets s) \<and> k \<in> ce_wallet ` set (selectedWallets s)"
      by (simp add: ledger_inv_def)
    moreover have "MAX_REBUY_COUNT \<le> rebuyCount_of s k" using m by simp
    ultimately show ?thesis using r2 by blast
  qed
  show ?thesis
    unfolding Let_def s_def [symmetric] s'_def [symmetric]
    using a b c d1 d2 d3 e by blast
qed

section \<open>The properties on the concrete session\<close>

lemmas demo_defs = demo_buy_def demo_sell_def demo_env_def demo_init_def demo_run_def

lemmas loop_defs = run_def init_def iteration_def process_wallet_def
     buy_succeeded_def sell_trigger_def executeSessionSells_def executeSessionSell_def executeWalletSell_def
     eligibleWallets_def eligibleEntries_def refresh_def keyPresses_def onKeyPress_def
     determineNextSellPoint_def determineConsecutiveSells_def js_round_def
     js_set_add_def js_map_delete_def MAX_REBUY_COUNT_def Let_def numeral_eq_Suc

lemma good_demo_env: "good_event (Iteration demo_env)"
  by (simp add: good_env_def demo_env_def demo_sell_def)

lemma good_demo_events: "\<forall>e \<in> set (replicate n (Iteration demo_env)). good_event e"
  using good_demo_env by simp

text \<open>
  The theorem for 3 wallets, and for the concrete session after three buys.
\<close>

theorem consecutive_sells_capped_witness:
  "(1::int) \<le> 3 \<and> determineConsecutiveSells 3 (7 / 10) (1 / 2) (99 / 100) \<le> 3
   \<and> sells_count (snd (executeSessionSells demo_env None (demo_run 3))) \<le> 3"
proof -
  have "length (filter (\<lambda>(pubKey, _). pubKey \<notin> set (usedSellWallets (demo_run 3)))
                 (successfulBuyWallets (demo_run 3))) = 3"
    by (simp add: demo_defs loop_defs)
  with consecutive_sells_capped [of 3 "7 / 10" "1 / 2" "99 / 100" demo_env None "demo_run 3"]
  show ?thesis by simp
qed

text \<open>
  The theorem at three ledgers with the wallets A and B, where B bought last: with
  nothing sold yet the sell, and the first sell of a sequence, come from A; with A
  already used the sell falls back to B; with both used there is no sell.
\<close>

theorem executeSessionSell_selection_witness:
  "attempts (fst (executeSessionSell demo_sell (Some ''B'')
       (demo_init\<lparr>successfulBuyWallets := [(''A'', demo_info ''A'' 1), (''B'', demo_info ''B'' 2)]\<rparr>)))
     = [\<lparr>at_direction = Sell, at_wallet = ''A'', at_paused = False\<rparr>]
   \<and> hd (attempts (fst (executeSessionSells demo_two_env (Some ''B'')
       (demo_init\<lparr>successfulBuyWallets := [(''A'', demo_info ''A'' 1), (''B'', demo_info ''B'' 2)]\<rparr>))))
     = \<lparr>at_direction = Sell, at_wallet = ''A'', at_paused = False\<rparr>
   \<and> attempts (fst (executeSessionSell demo_sell (Some ''B'')
       (demo_init\<lparr>successfulBuyWallets := [(''A'', demo_info ''A'' 1), (''B'', demo_info ''B'' 2)],
                   usedSellWallets := [''A'']\<rparr>)))
     = [\<lparr>at_direction = Sell, at_wallet = ''B'', at_paused = False\<rparr>]
   \<and> attempts (fst (executeSessionSell demo_sell (Some ''B'')
       (demo_init\<lparr>successfulBuyWallets := [(''A'', demo_info ''A'' 1), (''B'', demo_info ''B'' 2)],
                   usedSellWallets := [''A'', ''B'']\<rparr>)))
     = []"
proof -
  let ?m = "[(''A'', demo_info ''A'' 1), (''B'', demo_info ''B'' 2)]"
  have km: "keys_match (successfulBuyWallets (demo_init\<lparr>successfulBuyWallets := ?m, usedSellWallets := u\<rparr>))" for u
    by (simp add: keys_match_def demo_info_def)
  have km0: "keys_match (successfulBuyWallets (demo_init\<lparr>successfulBuyWallets := ?m\<rparr>))"
    by (simp add: keys_match_def demo_info_def)
  have p: "0 \<le> se_pick demo_sell" "se_pick demo_sell < 1" by (simp_all add: demo_sell_def)
  have ps: "\<forall>i. 0 \<le> se_pick (env_sell demo_two_env i) \<and> se_pick (env_sell demo_two_env i) < 1"
    by (simp add: demo_two_env_def demo_env_def demo_sell_def)
  have a0: "attempts demo_init = []" "isPaused demo_init = False" "usedSellWallets demo_init = []"
    by (simp_all add: demo_init_def init_def Let_def)
  have o1: "{k \<in> fst ` set ?m. k \<notin> set ([]::pubkey list) \<and> Some ''B'' \<noteq> Some k} = {''A''}" by auto
  have o2: "{k \<in> fst ` set ?m. k \<notin> set [''A''] \<and> Some ''B'' \<noteq> Some k} = {}" by auto
  have o3: "{k \<in> fst ` set ?m. k \<notin> set [''A'', ''B''] \<and> Some ''B'' \<noteq> Some k} = {}" by auto
  note t1 = executeSessionSell_selection [OF km0 p ps, of "Some ''B''"]
  from t1 have 1: "attempts (fst (executeSessionSell demo_sell (Some ''B'') (demo_init\<lparr>successfulBuyWallets := ?m\<rparr>)))
     = [\<lparr>at_direction = Sell, at_wallet = ''A'', at_paused = False\<rparr>]"
    unfolding Let_def o1 by (auto simp: a0)
  have first: "hd (attempts (fst (executeSessionSells demo_two_env (Some ''B'') (demo_init\<lparr>successfulBuyWallets := ?m\<rparr>))))
     = \<lparr>at_direction = Sell, at_wallet = ''A'', at_paused = False\<rparr>"
    by (simp add: demo_defs demo_two_env_def demo_info_def loop_defs)
  from executeSessionSell_selection [OF km [of "[''A'']"] p ps, of "Some ''B''"]
  have 2: "attempts (fst (executeSessionSell demo_sell (Some ''B'')
       (demo_init\<lparr>successfulBuyWallets := ?m, usedSellWallets := [''A'']\<rparr>)))
     = [\<lparr>at_direction = Sell, at_wallet = ''B'', at_paused = False\<rparr>]"
    unfolding Let_def o2 by (auto simp: a0)
  from executeSessionSell_selection [OF km [of "[''A'', ''B'']"] p ps, of "Some ''B''"]
  have 3: "attempts (fst (executeSessionSell demo_sell (Some ''B'')
       (demo_init\<lparr>successfulBuyWallets := ?m, usedSellWallets := [''A'', ''B'']\<rparr>)))
     = []"
    unfolding Let_def o3 by (auto simp: a0)
  from 1 first 2 3 show ?thesis by simp
qed

text \<open>
  Where the wording of C6 fails: after the buy of D, a sequence of two sells takes A and
  then D, the wallet that bought last, although B and C hold tokens and have not sold.
\<close>

theorem later_sell_from_buyer_counterexample:
  "attempts (run [Iteration demo_two_env] (demo_run 3)) =
     [\<lparr>at_direction = Buy, at_wallet = ''A'', at_paused = False\<rparr>,
      \<lparr>at_direction = Buy, at_wallet = ''B'', at_paused = False\<rparr>,
      \<lparr>at_direction = Buy, at_wallet = ''C'', at_paused = False\<rparr>,
      \<lparr>at_direction = Buy, at_wallet = ''D'', at_paused = False\<rparr>,
      \<lparr>at_direction = Sell, at_wallet = ''A'', at_paused = False\<rparr>,
      \<lparr>at_direction = Sell, at_wallet = ''D'', at_paused = False\<rparr>]
   \<and> map fst (successfulBuyWallets (run [Iteration demo_two_env] (demo_run 3))) = [''B'', ''C'']
   \<and> usedSellWallets (run [Iteration demo_two_env] (demo_run 3)) = [''A'', ''D'']"
  by (simp add: demo_defs demo_two_env_def loop_defs)

text \<open>
  The theorem on the concrete session after three buys, with the fourth buy counted: one
  successful sell moves the threshold to 4 + 17; a sequence in which no sell can be sent
  and the draw 1/2 move it to 4 + 3.
\<close>

theorem next_sell_threshold_witness:
  "buysUntilNextSell (demo_run 3) \<le> buyCounter ((demo_run 3)\<lparr>buyCounter := 4\<rparr>)
   \<and> sells_count (snd (executeSessionSells demo_env (Some ''C'') ((demo_run 3)\<lparr>buyCounter := 4\<rparr>))) = 1
   \<and> buysUntilNextSell (sell_trigger demo_env ''C'' ((demo_run 3)\<lparr>buyCounter := 4\<rparr>)) = 4 + 17
   \<and> successfulBuyWallets (fst (executeSessionSells (demo_fail_env (1 / 2)) (Some ''C'')
         ((demo_run 3)\<lparr>buyCounter := 4\<rparr>))) = successfulBuyWallets (demo_run 3)
   \<and> buysUntilNextSell (sell_trigger (demo_fail_env (1 / 2)) ''C'' ((demo_run 3)\<lparr>buyCounter := 4\<rparr>)) = 4 + 3"
proof -
  let ?s = "(demo_run 3)\<lparr>buyCounter := 4\<rparr>"
  have h: "buysUntilNextSell ?s \<le> buyCounter ?s"
    by (simp add: demo_defs loop_defs)
  have km: "keys_match (successfulBuyWallets ?s)"
    by (simp add: demo_defs loop_defs keys_match_def)
  have c1: "sells_count (snd (executeSessionSells demo_env (Some ''C'') ?s)) = 1"
    by (simp add: demo_defs loop_defs)
  have c0: "successfulBuyWallets (fst (executeSessionSells (demo_fail_env (1 / 2)) (Some ''C'') ?s))
              = successfulBuyWallets ?s"
    by (simp add: demo_defs demo_fail_env_def loop_defs)
  have r1: "0 \<le> env_retry demo_env" "env_retry demo_env < 1" by (simp_all add: demo_env_def)
  have r2: "0 \<le> env_retry (demo_fail_env (1 / 2))" "env_retry (demo_fail_env (1 / 2)) < 1"
    by (simp_all add: demo_fail_env_def demo_env_def)
  have p1: "\<forall>i. 0 \<le> se_pick (env_sell demo_env i) \<and> se_pick (env_sell demo_env i) < 1"
    by (simp add: demo_env_def demo_sell_def)
  have p2: "\<forall>i. 0 \<le> se_pick (env_sell (demo_fail_env (1 / 2)) i)
                \<and> se_pick (env_sell (demo_fail_env (1 / 2)) i) < 1"
    by (simp add: demo_fail_env_def demo_env_def demo_sell_def)
  have d1: "(case env_next demo_env of (rand, u, v) \<Rightarrow> determineNextSellPoint rand u v) = 17"
    by (simp add: demo_env_def determineNextSellPoint_def)
  from next_sell_threshold [OF h r1 p1 km, of "''C''"] c1 d1
  have 1: "buysUntilNextSell (sell_trigger demo_env ''C'' ?s) = 4 + 17"
    by (simp add: Let_def)
  from next_sell_threshold [OF h r2 p2 km, of "''C''"] c0
  have 2: "buysUntilNextSell (sell_trigger (demo_fail_env (1 / 2)) ''C'' ?s) = 4 + 3"
    by (simp add: Let_def demo_fail_env_def demo_env_def)
  from h c1 c0 1 2 show ?thesis by simp
qed

text \<open>
  Where the wording of C7 fails: the number of buys before the retry is not fixed. The
  same failed sequence after the fourth buy sets the threshold to 6 with the draw 0 and
  to 8 with the draw 0.9.
\<close>

theorem retry_not_fixed_counterexample:
  "buyCounter (run [Iteration (demo_fail_env 0)] (demo_run 3)) = 4
   \<and> buysUntilNextSell (run [Iteration (demo_fail_env 0)] (demo_run 3)) = 6
   \<and> map fst (successfulBuyWallets (run [Iteration (demo_fail_env 0)] (demo_run 3)))
        = [''A'', ''B'', ''C'', ''D'']
   \<and> buyCounter (run [Iteration (demo_fail_env (9 / 10))] (demo_run 3)) = 4
   \<and> buysUntilNextSell (run [Iteration (demo_fail_env (9 / 10))] (demo_run 3)) = 8
   \<and> map fst (successfulBuyWallets (run [Iteration (demo_fail_env (9 / 10))] (demo_run 3)))
        = [''A'', ''B'', ''C'', ''D'']"
  by (simp add: demo_defs demo_fail_env_def loop_defs)

text \<open>
  The theorem on the initial concrete session with the flag set.
\<close>

theorem pause_polled_between_iterations_witness:
  "isPaused (demo_init\<lparr>isPaused := True\<rparr>)
   \<and> iteration demo_env (demo_init\<lparr>isPaused := True\<rparr>) = demo_init\<lparr>isPaused := True\<rparr>
   \<and> snd (executeSessionSells demo_env None (demo_init\<lparr>isPaused := True\<rparr>))
       = snd (executeSessionSells demo_env None (demo_init\<lparr>isPaused := False\<rparr>))"
  using pause_polled_between_iterations [of "demo_init\<lparr>isPaused := True\<rparr>" demo_env None]
  by simp

text \<open>
  Where the wording of C5 fails: the fourth pass triggers a sequence of two sells; the
  key \<open>/\<close> is pressed before the first of them is sent, and both sells are attempted
  while the flag is set.
\<close>

theorem sells_while_paused_counterexample:
  "attempts (run [Iteration demo_pause_env] (demo_run 3)) =
     [\<lparr>at_direction = Buy, at_wallet = ''A'', at_paused = False\<rparr>,
      \<lparr>at_direction = Buy, at_wallet = ''B'', at_paused = False\<rparr>,
      \<lparr>at_direction = Buy, at_wallet = ''C'', at_paused = False\<rparr>,
      \<lparr>at_direction = Buy, at_wallet = ''D'', at_paused = False\<rparr>,
      \<lparr>at_direction = Sell, at_wallet = ''A'', at_paused = True\<rparr>,
      \<lparr>at_direction = Sell, at_wallet = ''B'', at_paused = True\<rparr>]
   \<and> isPaused (run [Iteration demo_pause_env] (demo_run 3))"
  by (simp add: demo_defs demo_pause_env_def loop_defs)

text \<open>
  The theorem on the concrete session: wallet A is sold at the fourth pass; after its
  rebuy at the fifth pass it is in \<open>successfulBuyWallets\<close>, still in
  \<open>usedSellWallets\<close>, and not eligible.
\<close>

theorem used_wallet_stays_excluded_witness:
  "''A'' \<in> set (usedSellWallets (demo_run 4))
   \<and> ''A'' \<in> fst ` set (successfulBuyWallets (run [Iteration demo_env] (demo_run 4)))
   \<and> ''A'' \<in> set (usedSellWallets (run [Iteration demo_env] (demo_run 4)))
   \<and> ''A'' \<notin> fst ` set (eligibleEntries (successfulBuyWallets (run [Iteration demo_env] (demo_run 4)))
                          (usedSellWallets (run [Iteration demo_env] (demo_run 4))) None)"
proof -
  have u: "''A'' \<in> set (usedSellWallets (run (replicate 4 (Iteration demo_env))
             (init False [(''A'', 1), (''B'', 2), (''C'', 3), (''D'', 4)] (95 / 100, 1 / 10, 0))))"
    by (simp add: demo_defs loop_defs)
  have g: "\<forall>e \<in> set [Iteration demo_env]. good_event e" using good_demo_env by simp
  have h: "''A'' \<in> fst ` set (successfulBuyWallets (run [Iteration demo_env] (demo_run 4)))"
    by (simp add: demo_defs loop_defs)
  from used_wallet_stays_excluded [OF good_demo_events g u, of None] u h
  show ?thesis by (simp add: Let_def demo_run_def demo_init_def)
qed

text \<open>
  Where the wording of C2 fails: after five passes wallet A has sold and has been bought
  again (its rebuy count is 1, it is the last key of \<open>successfulBuyWallets\<close>), yet the
  eligible entries are those of B, C and D only.
\<close>

theorem used_wallet_rebuy_counterexample:
  "map fst (successfulBuyWallets (demo_run 5)) = [''B'', ''C'', ''D'', ''A'']
   \<and> rebuyCountMap (demo_run 5) ''A'' = Some 1
   \<and> usedSellWallets (demo_run 5) = [''A'']
   \<and> map fst (eligibleEntries (successfulBuyWallets (demo_run 5)) (usedSellWallets (demo_run 5)) None)
        = [''B'', ''C'', ''D'']"
  by (simp add: demo_defs loop_defs)

text \<open>
  The theorem on the concrete session after 14 passes, where wallet A has been bought
  again 10 times.
\<close>

theorem rebuy_count_ceiling_witness:
  "rebuyCount_of (demo_run 14) ''A'' = MAX_REBUY_COUNT
   \<and> rebuyCount_of (demo_run 14) ''A'' \<le> rebuyCount_of (run [Iteration demo_env] (demo_run 14)) ''A''
   \<and> ''A'' \<notin> ce_wallet ` set (pending (demo_run 14))
   \<and> ''A'' \<notin> ce_wallet ` set (walletCycle (refresh demo_env (demo_run 14)))
   \<and> ''A'' \<in> blacklistedWallets (refresh demo_env (demo_run 14))"
proof -
  have c: "rebuyCount_of (run (replicate 14 (Iteration demo_env))
             (init False [(''A'', 1), (''B'', 2), (''C'', 3), (''D'', 4)] (95 / 100, 1 / 10, 0))) ''A''
           = MAX_REBUY_COUNT"
    by (simp add: demo_defs loop_defs rebuyCount_of_def)
  have g: "\<forall>e \<in> set [Iteration demo_env]. good_event e" using good_demo_env by simp
  have p: "\<forall>xs. mset (env_shuffle demo_env xs) = mset xs" by (simp add: demo_env_def)
  from rebuy_count_ceiling [where paused = False and k = "''A''"
         and selected = "[(''A'', 1), (''B'', 2), (''C'', 3), (''D'', 4)]"
         and draws = "(95 / 100, 1 / 10, 0)", OF good_demo_events g p, of 14] c
  show ?thesis by (simp add: Let_def demo_run_def demo_init_def)
qed

text \<open>
  Where the wording of C4 fails: after 14 passes the rebuy count of wallet A equals the
  ceiling of 10 and A is not in \<open>blacklistedWallets\<close>; the refresh of the fifteenth pass
  puts it there.
\<close>

theorem rebuy_ceiling_counterexample:
  "rebuyCount_of (demo_run 14) ''A'' = 10 \<and> MAX_REBUY_COUNT = 10
   \<and> ''A'' \<notin> blacklistedWallets (demo_run 14)
   \<and> ''A'' \<in> blacklistedWallets (demo_run 15)"
  by (simp add: demo_defs loop_defs rebuyCount_of_def)

end
